theory Spec2Isabelle
  imports Complex_Main
begin

section \<open>Python values\<close>

text \<open>
  The traffic controller of \<^verbatim>\<open>algorithm.py\<close> and the detection aggregation of
  \<^verbatim>\<open>model_api.py\<close> are embedded as HOL functions. Every exception the source can
  raise is a value \<open>Inl e\<close> of a sum type. Python's unbounded integers are \<open>int\<close>.
  Python's floats are IEEE 754 doubles: every arithmetic result is rounded to the
  nearest double, conversions and \<^verbatim>\<open>int()\<close> raise where Python raises, and
  infinities and NaN are values. The wall clock (\<^verbatim>\<open>time.time()\<close>) and the random
  source (\<^verbatim>\<open>random.randint\<close>) are inputs of the functions that read them; printing
  is left out.
\<close>

datatype py_error = KeyError | ValueError | ZeroDivisionError | IndexError | OverflowError

text \<open>
  A Python \<^verbatim>\<open>dict\<close> keeps its keys in insertion order, and the selectors iterate
  over dicts, so a dict is an association list: a key is looked up with \<open>map_of\<close>, and
  storing under a key replaces the value in place when the key is present and appends
  the pair otherwise.
\<close>

type_synonym ('k, 'v) dict = "('k \<times> 'v) list"

fun dict_set :: "('k, 'v) dict \<Rightarrow> 'k \<Rightarrow> 'v \<Rightarrow> ('k, 'v) dict" where
  "dict_set [] k v = [(k, v)]"
| "dict_set ((k', v') # kvs) k v =
     (if k' = k then (k, v) # kvs else (k', v') # dict_set kvs k v)"

definition dict_get :: "('k, 'v) dict \<Rightarrow> 'k \<Rightarrow> py_error + 'v" where
  "dict_get d k = (case map_of d k of None \<Rightarrow> Inl KeyError | Some v \<Rightarrow> Inr v)"

text \<open>\<^verbatim>\<open>xs[0]\<close>.\<close>

fun item0 :: "'a list \<Rightarrow> py_error + 'a" where
  "item0 (x # xs) = Inr x"
| "item0 [] = Inl IndexError"

text \<open>\<^verbatim>\<open>max(xs)\<close>: the first largest element, \<^verbatim>\<open>ValueError\<close> on an empty sequence.\<close>

definition py_max :: "int list \<Rightarrow> py_error + int" where
  "py_max xs =
     (case xs of
        [] \<Rightarrow> Inl ValueError
      | x # rest \<Rightarrow> Inr (fold (\<lambda>y best. if best < y then y else best) rest x))"

text \<open>\<^verbatim>\<open>xs.index(x)\<close>: the first position of \<open>x\<close>, \<^verbatim>\<open>ValueError\<close> when absent.\<close>

fun index_of :: "'a list \<Rightarrow> 'a \<Rightarrow> py_error + nat" where
  "index_of [] x = Inl ValueError"
| "index_of (y # ys) x =
     (if y = x then Inr 0
      else case index_of ys x of Inl e \<Rightarrow> Inl e | Inr i \<Rightarrow> Inr (Suc i))"

text \<open>\<^verbatim>\<open>str(n)\<close> of a natural number: its decimal digits.\<close>

fun str_nat :: "nat \<Rightarrow> string" where
  "str_nat n =
     (if n < 10 then [''0123456789'' ! n]
      else str_nat (n div 10) @ [''0123456789'' ! (n mod 10)])"

declare str_nat.simps [simp del]

section \<open>Python floats\<close>

text \<open>
  A float is a finite double, an infinity or NaN. The sign of zero is not kept: it
  changes no comparison, no truth test and no result of the code modelled here.
\<close>

datatype pyfloat = Finite real | PosInf | NegInf | NaN

text \<open>
  Rounding a real number to the nearest double, ties to even. \<open>binade x\<close> is the
  exponent \<open>e\<close> with \<open>2^e \<le> |x| < 2^(e+1)\<close>; a double has 53 significant bits, so the
  spacing of doubles around \<open>x\<close> is \<open>2^(e-52)\<close>, and \<open>2^(-1074)\<close> below the normal range;
  a result of magnitude \<open>2^1024\<close> or more is an infinity.
\<close>

definition pow2 :: "int \<Rightarrow> real" where
  "pow2 k = (if 0 \<le> k then 2 ^ nat k else 1 / 2 ^ nat (- k))"

definition round_even :: "real \<Rightarrow> int" where
  "round_even x =
     (let f = \<lfloor>x\<rfloor>; r = x - of_int f
      in if r < 1 / 2 then f else if 1 / 2 < r then f + 1 else if even f then f else f + 1)"

function bit_length :: "int \<Rightarrow> nat" where
  "bit_length n = (if n \<le> 0 then 0 else Suc (bit_length (n div 2)))"
  by pat_completeness auto
termination
  by (relation "measure nat") auto

declare bit_length.simps [simp del]

definition binade :: "real \<Rightarrow> int" where
  "binade x =
     (if 1 \<le> \<bar>x\<bar> then int (bit_length \<lfloor>\<bar>x\<bar>\<rfloor>) - 1
      else - int (bit_length (\<lceil>1 / \<bar>x\<bar>\<rceil> - 1)))"

definition round_double :: "real \<Rightarrow> pyfloat" where
  "round_double x =
     (if x = 0 then Finite 0
      else
        let u = pow2 (max (binade x) (- 1022) - 52);
            y = of_int (round_even (x / u)) * u
        in if 2 ^ 1024 \<le> \<bar>y\<bar> then (if 0 < x then PosInf else NegInf) else Finite y)"

text \<open>
  \<^verbatim>\<open>float(n)\<close>, the conversion Python applies to an \<^verbatim>\<open>int\<close> operand of a mixed
  operation: \<^verbatim>\<open>OverflowError\<close> when the integer is beyond the doubles.
\<close>

definition float_of_int :: "int \<Rightarrow> py_error + pyfloat" where
  "float_of_int n =
     (case round_double (of_int n) of
        Finite y \<Rightarrow> Inr (Finite y)
      | _ \<Rightarrow> Inl OverflowError)"

text \<open>Addition, subtraction and multiplication never raise: they overflow to an infinity.\<close>

fun fadd :: "pyfloat \<Rightarrow> pyfloat \<Rightarrow> pyfloat" where
  "fadd (Finite x) (Finite y) = round_double (x + y)"
| "fadd NaN b = NaN"
| "fadd a NaN = NaN"
| "fadd PosInf NegInf = NaN"
| "fadd NegInf PosInf = NaN"
| "fadd PosInf b = PosInf"
| "fadd NegInf b = NegInf"
| "fadd a PosInf = PosInf"
| "fadd a NegInf = NegInf"

fun fneg :: "pyfloat \<Rightarrow> pyfloat" where
  "fneg (Finite x) = Finite (- x)"
| "fneg PosInf = NegInf"
| "fneg NegInf = PosInf"
| "fneg NaN = NaN"

definition fsub :: "pyfloat \<Rightarrow> pyfloat \<Rightarrow> pyfloat" where
  "fsub a b = fadd a (fneg b)"

fun positive :: "pyfloat \<Rightarrow> bool" where
  "positive (Finite x) = (0 < x)"
| "positive PosInf = True"
| "positive NegInf = False"
| "positive NaN = False"

fun fmul :: "pyfloat \<Rightarrow> pyfloat \<Rightarrow> pyfloat" where
  "fmul (Finite x) (Finite y) = round_double (x * y)"
| "fmul NaN b = NaN"
| "fmul a NaN = NaN"
| "fmul a b =
     (if a = Finite 0 \<or> b = Finite 0 then NaN
      else if positive a = positive b then PosInf else NegInf)"

text \<open>\<^verbatim>\<open>a / b\<close> raises \<^verbatim>\<open>ZeroDivisionError\<close> when \<open>b\<close> is zero, whatever \<open>a\<close> is.\<close>

fun fdiv :: "pyfloat \<Rightarrow> pyfloat \<Rightarrow> py_error + pyfloat" where
  "fdiv a (Finite y) =
     (if y = 0 then Inl ZeroDivisionError
      else case a of
             Finite x \<Rightarrow> Inr (round_double (x / y))
           | NaN \<Rightarrow> Inr NaN
           | _ \<Rightarrow> Inr (if positive a = (0 < y) then PosInf else NegInf))"
| "fdiv NaN b = Inr NaN"
| "fdiv a NaN = Inr NaN"
| "fdiv (Finite x) b = Inr (Finite 0)"
| "fdiv a b = Inr NaN"

text \<open>\<^verbatim>\<open>a < b\<close>: false whenever an operand is NaN.\<close>

fun flt :: "pyfloat \<Rightarrow> pyfloat \<Rightarrow> bool" where
  "flt (Finite x) (Finite y) = (x < y)"
| "flt NaN b = False"
| "flt a NaN = False"
| "flt a NegInf = False"
| "flt PosInf b = False"
| "flt a b = True"

text \<open>
  \<^verbatim>\<open>max(a, b)\<close> and \<^verbatim>\<open>min(a, b)\<close> keep the first argument unless the second is
  strictly larger, respectively smaller.
\<close>

definition fmax :: "pyfloat \<Rightarrow> pyfloat \<Rightarrow> pyfloat" where
  "fmax a b = (if flt a b then b else a)"

definition fmin :: "pyfloat \<Rightarrow> pyfloat \<Rightarrow> pyfloat" where
  "fmin a b = (if flt b a then b else a)"

text \<open>
  \<^verbatim>\<open>int(x)\<close> truncates towards zero; it raises \<^verbatim>\<open>OverflowError\<close> on an infinity
  and \<^verbatim>\<open>ValueError\<close> on NaN.
\<close>

fun py_int :: "pyfloat \<Rightarrow> py_error + int" where
  "py_int (Finite x) = Inr (if 0 \<le> x then \<lfloor>x\<rfloor> else \<lceil>x\<rceil>)"
| "py_int NaN = Inl ValueError"
| "py_int a = Inl OverflowError"


text \<open>The float literals of the source: a literal denotes the nearest double.\<close>

definition float_0_4 :: pyfloat where "float_0_4 = round_double (2 / 5)"
definition float_2_0 :: pyfloat where "float_2_0 = round_double 2"
definition float_2_5 :: pyfloat where "float_2_5 = round_double (5 / 2)"
definition float_3_0 :: pyfloat where "float_3_0 = round_double 3"
definition float_12_0 :: pyfloat where "float_12_0 = round_double 12"
definition float_15_0 :: pyfloat where "float_15_0 = round_double 15"

text \<open>\<^verbatim>\<open>max(d, key=d.get)\<close>: the first key whose value is largest.\<close>

definition max_key :: "('k, pyfloat) dict \<Rightarrow> py_error + 'k" where
  "max_key d =
     (case d of
        [] \<Rightarrow> Inl ValueError
      | kv # rest \<Rightarrow>
          Inr (fst (fold (\<lambda>kv' best. if flt (snd best) (snd kv') then kv' else best) rest kv)))"

section \<open>The controller's data\<close>

text \<open>
  The lane dictionaries of the source have fixed keys, so they are records. A reading
  carries \<open>lane_id\<close>, \<open>normal\<close> and \<open>emergency\<close>; an entry of the working snapshot
  \<^verbatim>\<open>data\<close> carries \<open>normal\<close>, \<open>emergency\<close> and \<open>wait\<close>; an entry of
  \<^verbatim>\<open>self.lanes\<close> adds \<open>state\<close>, the one-hot list \<^verbatim>\<open>[red, yellow, green]\<close>.
\<close>

record counts =
  normal :: int
  emergency :: int

record lane_data = counts +
  wait :: int

record lane = lane_data +
  state :: "int list"

record reading = counts +
  lane_id :: string

record lane_report =
  report_state :: "int list"
  report_wait :: int
  green_time :: "pyfloat option"

definition RED :: "int list" where "RED = [1, 0, 0]"
definition YELLOW :: "int list" where "YELLOW = [0, 1, 0]"
definition GREEN :: "int list" where "GREEN = [0, 0, 1]"

record controller =
  lane_ids :: "string list"
  lanes :: "(string, lane) dict"
  current_green :: "string option"
  green_started_at :: "pyfloat option"
  current_green_time :: pyfloat
  last_emergency_lane :: "string option"
  yellow_time :: pyfloat
  min_green :: pyfloat
  max_green :: pyfloat
  wait_boost :: pyfloat
  starvation_limit :: int
  clearance_rate :: pyfloat
  debug :: bool

text \<open>\<^verbatim>\<open>__init__\<close>: lanes \<^verbatim>\<open>Lane_1\<close> to \<^verbatim>\<open>Lane_N\<close>, all red, nothing green yet.\<close>

definition fresh_lane :: lane where
  "fresh_lane = \<lparr>normal = 0, emergency = 0, wait = 0, state = RED\<rparr>"

definition init_controller ::
  "int \<Rightarrow> pyfloat \<Rightarrow> pyfloat \<Rightarrow> pyfloat \<Rightarrow> pyfloat \<Rightarrow> int \<Rightarrow> pyfloat \<Rightarrow> bool \<Rightarrow> controller" where
  "init_controller N yellow_t min_g max_g boost limit rate dbg =
     (let ids = map (\<lambda>i. ''Lane_'' @ str_nat (i + 1)) [0..<nat N]
      in \<lparr>lane_ids = ids,
          lanes = fold (\<lambda>lane d. dict_set d lane fresh_lane) ids [],
          current_green = None,
          green_started_at = None,
          current_green_time = min_g,
          last_emergency_lane = None,
          yellow_time = yellow_t,
          min_green = min_g,
          max_green = max_g,
          wait_boost = boost,
          starvation_limit = limit,
          clearance_rate = rate,
          debug = dbg\<rparr>)"

text \<open>The constructor with the defaults of its signature.\<close>

definition default_controller :: "int \<Rightarrow> controller" where
  "default_controller N =
     init_controller N float_2_0 float_3_0 float_15_0 float_0_4 8 float_3_0 True"

text \<open>
  The controller that \<^verbatim>\<open>update_signal\<close> of \<^verbatim>\<open>algo_api.py\<close> builds for the lane
  ids of a request: the constructor with its keyword arguments, then \<^verbatim>\<open>lane_ids\<close>
  and \<^verbatim>\<open>lanes\<close> overwritten with the ids received.
\<close>

definition api_controller :: "string list \<Rightarrow> controller" where
  "api_controller incoming_lanes =
     (init_controller (int (length incoming_lanes)) float_2_0 float_3_0 float_12_0
        float_0_4 8 float_2_5 False)
       \<lparr>lane_ids := incoming_lanes,
        lanes := fold (\<lambda>lane_id d. dict_set d lane_id fresh_lane) incoming_lanes []\<rparr>"

section \<open>The selectors\<close>

text \<open>
  \<^verbatim>\<open>_choose_emergency_lane\<close>. The comprehensions run over the keys of \<^verbatim>\<open>data\<close> and
  read \<^verbatim>\<open>data[l]\<close>; over an association list with one pair per key that is a filter
  over its pairs. The \<^verbatim>\<open>for ... else\<close> scan visits
  \<^verbatim>\<open>lane_ids[(start + i) % len(lane_ids)]\<close> for \<open>i\<close> from 0 and stops at the first tied
  lane; \<open>find\<close> returns it, and \<open>None\<close> is the \<^verbatim>\<open>else\<close> branch.
\<close>

definition scan_order :: "string list \<Rightarrow> nat \<Rightarrow> string list" where
  "scan_order ids start =
     map (\<lambda>i. ids ! ((start + i) mod length ids)) [0..<length ids]"

definition scan_start :: "controller \<Rightarrow> py_error + nat" where
  "scan_start c =
     (case last_emergency_lane c of
        None \<Rightarrow> Inr 0
      | Some l \<Rightarrow>
          if l \<in> set (lane_ids c)
          then (case index_of (lane_ids c) l of
                  Inl e \<Rightarrow> Inl e
                | Inr i \<Rightarrow> Inr ((i + 1) mod length (lane_ids c)))
          else Inr 0)"

definition round_robin :: "controller \<Rightarrow> string list \<Rightarrow> py_error + string" where
  "round_robin c tied =
     (case scan_start c of
        Inl e \<Rightarrow> Inl e
      | Inr start \<Rightarrow>
          (case find (\<lambda>lane. lane \<in> set tied) (scan_order (lane_ids c) start) of
             Some lane \<Rightarrow> Inr lane
           | None \<Rightarrow> item0 tied))"

definition choose_emergency_lane ::
  "controller \<Rightarrow> (string, lane_data) dict \<Rightarrow> py_error + controller \<times> string option" where
  "choose_emergency_lane c data =
     (let emergencies = filter (\<lambda>(l, d). 0 < emergency d) data in
      if emergencies = [] then Inr (c, None)
      else
        (case py_max (map (\<lambda>(l, d). emergency d) emergencies) of
           Inl e \<Rightarrow> Inl e
         | Inr max_count \<Rightarrow>
             (let tied = map fst (filter (\<lambda>(l, d). emergency d = max_count) emergencies) in
              case (if length tied = 1 then item0 tied else round_robin c tied) of
                Inl e \<Rightarrow> Inl e
              | Inr chosen \<Rightarrow> Inr (c\<lparr>last_emergency_lane := Some chosen\<rparr>, Some chosen))))"

text \<open>\<^verbatim>\<open>_choose_normal_lane\<close>: the score table is filled in registration order.\<close>

text \<open>
  The score \<^verbatim>\<open>n * (1 + w * self.wait_boost)\<close>: the integers \<open>w\<close>, \<open>1\<close> and \<open>n\<close> are
  converted to floats where they meet a float, \<open>w\<close> before \<open>n\<close>; \<^verbatim>\<open>score += 1000\<close>
  adds the float 1000.
\<close>

definition lane_score :: "controller \<Rightarrow> lane_data \<Rightarrow> py_error + pyfloat" where
  "lane_score c d =
     (let n = normal d;
          w = wait d
      in case float_of_int w of
           Inl e \<Rightarrow> Inl e
         | Inr fw \<Rightarrow>
             (case float_of_int n of
                Inl e \<Rightarrow> Inl e
              | Inr fn \<Rightarrow>
                  (let score = fmul fn (fadd (Finite 1) (fmul fw (wait_boost c)))
                   in Inr (if starvation_limit c \<le> w then fadd score (Finite 1000)
                           else score))))"

fun build_scores ::
  "controller \<Rightarrow> (string, lane_data) dict \<Rightarrow> string list \<Rightarrow> (string, pyfloat) dict
     \<Rightarrow> py_error + (string, pyfloat) dict" where
  "build_scores c data [] scores = Inr scores"
| "build_scores c data (lane # rest) scores =
     (case dict_get data lane of
        Inl e \<Rightarrow> Inl e
      | Inr d \<Rightarrow>
          (case lane_score c d of
             Inl e \<Rightarrow> Inl e
           | Inr score \<Rightarrow> build_scores c data rest (dict_set scores lane score)))"

definition choose_normal_lane ::
  "controller \<Rightarrow> (string, lane_data) dict \<Rightarrow> py_error + string" where
  "choose_normal_lane c data =
     (case build_scores c data (lane_ids c) [] of
        Inl e \<Rightarrow> Inl e
      | Inr scores \<Rightarrow> max_key scores)"

section \<open>Timing, phases, waits and flow\<close>

text \<open>
  \<^verbatim>\<open>_calculate_green_time\<close>. \<^verbatim>\<open>normal / self.clearance_rate\<close> converts
  \<open>normal\<close> to a float and then divides: \<^verbatim>\<open>OverflowError\<close> for a count beyond the
  doubles, \<^verbatim>\<open>ZeroDivisionError\<close> for a clearance rate of zero.
\<close>

definition calculate_green_time :: "controller \<Rightarrow> lane_data \<Rightarrow> py_error + pyfloat" where
  "calculate_green_time c ld =
     (case float_of_int (normal ld) of
        Inl e \<Rightarrow> Inl e
      | Inr fn \<Rightarrow>
     (case fdiv fn (clearance_rate c) of
        Inl e \<Rightarrow> Inl e
      | Inr clear_time \<Rightarrow>
     (case float_of_int (wait ld) of
        Inl e \<Rightarrow> Inl e
      | Inr fw \<Rightarrow>
     (case float_of_int (emergency ld) of
        Inl e \<Rightarrow> Inl e
      | Inr fe \<Rightarrow>
          (let wait_bonus = fmul fw float_0_4;
               emergency_bonus = fmul fe float_2_0;
               base_time = fadd (fadd clear_time wait_bonus) emergency_bonus
           in Inr (fmax (min_green c) (fmin base_time (max_green c))))))))"

text \<open>\<^verbatim>\<open>_apply_yellow\<close>, with the clock value it reads as \<open>now\<close>.\<close>

fun paint_lanes ::
  "(string, lane) dict \<Rightarrow> string list \<Rightarrow> string \<Rightarrow> py_error + (string, lane) dict" where
  "paint_lanes ls [] to_green = Inr ls"
| "paint_lanes ls (lane # rest) to_green =
     (case dict_get ls lane of
        Inl e \<Rightarrow> Inl e
      | Inr l \<Rightarrow>
          paint_lanes
            (dict_set ls lane (l\<lparr>state := (if lane = to_green then YELLOW else RED)\<rparr>))
            rest to_green)"

definition apply_yellow :: "controller \<Rightarrow> string \<Rightarrow> pyfloat \<Rightarrow> py_error + controller" where
  "apply_yellow c to_green now =
     (case paint_lanes (lanes c) (lane_ids c) to_green of
        Inl e \<Rightarrow> Inl e
      | Inr ls \<Rightarrow>
          (case dict_get ls to_green of
             Inl e \<Rightarrow> Inl e
           | Inr l \<Rightarrow>
               Inr (c\<lparr>lanes := dict_set ls to_green (l\<lparr>state := GREEN\<rparr>),
                      current_green := Some to_green,
                      green_started_at := Some now\<rparr>)))"

text \<open>\<^verbatim>\<open>_update_waits\<close>.\<close>

fun update_waits ::
  "(string, lane) dict \<Rightarrow> string list \<Rightarrow> string \<Rightarrow> py_error + (string, lane) dict" where
  "update_waits ls [] chosen = Inr ls"
| "update_waits ls (lane # rest) chosen =
     (case dict_get ls lane of
        Inl e \<Rightarrow> Inl e
      | Inr l \<Rightarrow>
          update_waits
            (dict_set ls lane (l\<lparr>wait := (if lane = chosen then 0 else wait l + 1)\<rparr>))
            rest chosen)"

text \<open>
  \<^verbatim>\<open>_simulate_flow\<close>. The draws of \<^verbatim>\<open>random.randint(0, 3)\<close> are the values
  \<open>rnd 0\<close>, \<open>rnd 1\<close>, ... in the order the loop asks for them.
\<close>

fun arrivals ::
  "(string, lane_data) dict \<Rightarrow> string list \<Rightarrow> string \<Rightarrow> (nat \<Rightarrow> int) \<Rightarrow> nat
     \<Rightarrow> py_error + (string, lane_data) dict" where
  "arrivals data [] chosen rnd k = Inr data"
| "arrivals data (lane # rest) chosen rnd k =
     (if lane \<noteq> chosen
      then (case dict_get data lane of
              Inl e \<Rightarrow> Inl e
            | Inr d \<Rightarrow>
                arrivals (dict_set data lane (d\<lparr>normal := normal d + rnd k\<rparr>))
                  rest chosen rnd (Suc k))
      else arrivals data rest chosen rnd k)"

definition simulate_flow ::
  "controller \<Rightarrow> (string, lane_data) dict \<Rightarrow> string \<Rightarrow> pyfloat \<Rightarrow> (nat \<Rightarrow> int)
     \<Rightarrow> py_error + (string, lane_data) dict" where
  "simulate_flow c data chosen g rnd =
     (case dict_get data chosen of
        Inl e \<Rightarrow> Inl e
      | Inr d \<Rightarrow>
          (case py_int (fmul (clearance_rate c) g) of
             Inl e \<Rightarrow> Inl e
           | Inr capacity \<Rightarrow>
               (let cleared = min (normal d) capacity
                in arrivals (dict_set data chosen (d\<lparr>normal := normal d - cleared\<rparr>))
                     (lane_ids c) chosen rnd 0)))"

section \<open>The decision cycle\<close>

text \<open>Step 0 of \<^verbatim>\<open>update\<close>: the readings merged with the stored wait counters.\<close>

fun merge_readings ::
  "(string, lane) dict \<Rightarrow> reading list \<Rightarrow> (string, lane_data) dict
     \<Rightarrow> py_error + (string, lane_data) dict" where
  "merge_readings ls [] data = Inr data"
| "merge_readings ls (d # ds) data =
     (case dict_get ls (lane_id d) of
        Inl e \<Rightarrow> Inl e
      | Inr l \<Rightarrow>
          merge_readings ls ds
            (dict_set data (lane_id d)
               \<lparr>normal = normal d, emergency = emergency d, wait = wait l\<rparr>))"

text \<open>
  Steps 1 and 2: \<^verbatim>\<open>if not chosen\<close> and
  \<^verbatim>\<open>if self.current_green and self.green_started_at\<close> are truth tests: \<^verbatim>\<open>None\<close>, the
  empty string and \<open>0.0\<close> are false. \<open>now\<close> is the clock value read for \<^verbatim>\<open>elapsed\<close>.
\<close>

definition fallback_lane ::
  "controller \<Rightarrow> (string, lane_data) dict \<Rightarrow> pyfloat \<Rightarrow> py_error + string" where
  "fallback_lane c data now =
     (case (current_green c, green_started_at c) of
        (Some g, Some t) \<Rightarrow>
          if g \<noteq> [] \<and> t \<noteq> Finite 0
          then (let elapsed = fsub now t
                in if flt elapsed (current_green_time c) then Inr g
                   else choose_normal_lane c data)
          else choose_normal_lane c data
      | _ \<Rightarrow> choose_normal_lane c data)"

definition select_lane ::
  "controller \<Rightarrow> (string, lane_data) dict \<Rightarrow> pyfloat \<Rightarrow> py_error + controller \<times> string" where
  "select_lane c data now =
     (case choose_emergency_lane c data of
        Inl e \<Rightarrow> Inl e
      | Inr (c1, chosen) \<Rightarrow>
          (case chosen of
             Some l \<Rightarrow>
               if l \<noteq> [] then Inr (c1, l)
               else (case fallback_lane c1 data now of
                       Inl e \<Rightarrow> Inl e
                     | Inr l' \<Rightarrow> Inr (c1, l'))
           | None \<Rightarrow>
               (case fallback_lane c1 data now of
                  Inl e \<Rightarrow> Inl e
                | Inr l' \<Rightarrow> Inr (c1, l'))))"

text \<open>Step 7: the simulated queue lengths are written back.\<close>

fun store_queues ::
  "(string, lane) dict \<Rightarrow> string list \<Rightarrow> (string, lane_data) dict
     \<Rightarrow> py_error + (string, lane) dict" where
  "store_queues ls [] data = Inr ls"
| "store_queues ls (lane # rest) data =
     (case dict_get data lane of
        Inl e \<Rightarrow> Inl e
      | Inr d \<Rightarrow>
          (case dict_get ls lane of
             Inl e \<Rightarrow> Inl e
           | Inr l \<Rightarrow> store_queues (dict_set ls lane (l\<lparr>normal := normal d\<rparr>)) rest data))"

text \<open>The report: one entry per registered lane, the green time on the green lane.\<close>

fun report_lanes ::
  "(string, lane) dict \<Rightarrow> string list \<Rightarrow> (string, lane_report) dict
     \<Rightarrow> py_error + (string, lane_report) dict" where
  "report_lanes ls [] out = Inr out"
| "report_lanes ls (lane # rest) out =
     (case dict_get ls lane of
        Inl e \<Rightarrow> Inl e
      | Inr l \<Rightarrow>
          report_lanes ls rest
            (dict_set out lane
               \<lparr>report_state = state l, report_wait = wait l, green_time = None\<rparr>))"

definition build_output :: "controller \<Rightarrow> py_error + (string, lane_report) dict" where
  "build_output c =
     (case report_lanes (lanes c) (lane_ids c) [] of
        Inl e \<Rightarrow> Inl e
      | Inr out \<Rightarrow>
          (case current_green c of
             None \<Rightarrow> Inl KeyError
           | Some g \<Rightarrow>
               (case dict_get out g of
                  Inl e \<Rightarrow> Inl e
                | Inr r \<Rightarrow>
                    Inr (dict_set out g (r\<lparr>green_time := Some (current_green_time c)\<rparr>)))))"

text \<open>
  \<^verbatim>\<open>update\<close>. \<open>now_check\<close> is the clock value read for the elapsed-time test (step 2),
  \<open>now_green\<close> the one read by \<^verbatim>\<open>_apply_yellow\<close> (step 5). An exception leaves the
  call without a report; the state it leaves behind is not modelled.
\<close>

definition update ::
  "controller \<Rightarrow> reading list \<Rightarrow> pyfloat \<Rightarrow> pyfloat \<Rightarrow> (nat \<Rightarrow> int)
     \<Rightarrow> py_error + controller \<times> (string, lane_report) dict" where
  "update c lanes_data now_check now_green rnd =
     (case merge_readings (lanes c) lanes_data [] of
        Inl e \<Rightarrow> Inl e
      | Inr data \<Rightarrow>
     (case select_lane c data now_check of
        Inl e \<Rightarrow> Inl e
      | Inr (c1, chosen) \<Rightarrow>
     (case update_waits (lanes c1) (lane_ids c1) chosen of
        Inl e \<Rightarrow> Inl e
      | Inr ls2 \<Rightarrow>
     (case dict_get data chosen of
        Inl e \<Rightarrow> Inl e
      | Inr d \<Rightarrow>
     (case calculate_green_time c1 d of
        Inl e \<Rightarrow> Inl e
      | Inr g \<Rightarrow>
     (case apply_yellow (c1\<lparr>lanes := ls2, current_green_time := g\<rparr>) chosen now_green of
        Inl e \<Rightarrow> Inl e
      | Inr c3 \<Rightarrow>
     (case simulate_flow c3 data chosen g rnd of
        Inl e \<Rightarrow> Inl e
      | Inr data' \<Rightarrow>
     (case store_queues (lanes c3) (lane_ids c3) data' of
        Inl e \<Rightarrow> Inl e
      | Inr ls4 \<Rightarrow>
     (case build_output (c3\<lparr>lanes := ls4\<rparr>) of
        Inl e \<Rightarrow> Inl e
      | Inr out \<Rightarrow> Inr (c3\<lparr>lanes := ls4\<rparr>, out))))))))))"

section \<open>Rounding to a double\<close>

lemma pow2_pos [simp]: "0 < pow2 k"
  by (simp add: pow2_def)

lemma pow2_nonzero [simp]: "pow2 k \<noteq> 0"
  using pow2_pos [of k] by linarith

lemma pow2_neg: "pow2 (- int n) = 1 / 2 ^ n"
  by (cases "n = 0") (simp_all add: pow2_def)

lemma pow2_add: "pow2 (j + k) = pow2 j * pow2 k"
proof -
  have "pow2 k = 2 powr (of_int k)" for k
    by (simp add: pow2_def powr_realpow [symmetric] powr_minus_divide)
  then show ?thesis by (simp add: powr_add)
qed

lemma pow2_nat: "pow2 (int n) = 2 ^ n"
  by (simp add: pow2_def)

lemma pow2_mono: "j \<le> k \<Longrightarrow> pow2 j \<le> pow2 k"
proof -
  have "pow2 k = 2 powr (of_int k)" for k
    by (simp add: pow2_def powr_realpow [symmetric] powr_minus_divide)
  then show "j \<le> k \<Longrightarrow> pow2 j \<le> pow2 k" by simp
qed

lemma bit_length_unique:
  "2 ^ k \<le> n \<Longrightarrow> n < 2 ^ Suc k \<Longrightarrow> bit_length n = Suc k"
proof (induction k arbitrary: n)
  case 0
  then have "n = 1" by simp
  then show ?case by (simp add: bit_length.simps [of 1] bit_length.simps [of 0])
next
  case (Suc k)
  then have "2 ^ k \<le> n div 2" "n div 2 < 2 ^ Suc k" by auto
  from Suc.IH [OF this] Suc.prems show ?case
    by (subst bit_length.simps) (auto simp: not_le)
qed

lemma bit_length_bounds:
  "0 < n \<Longrightarrow> 2 ^ (bit_length n - 1) \<le> n \<and> n < 2 ^ bit_length n"
proof (induction n rule: bit_length.induct)
  case (1 n)
  show ?case
  proof (cases "n = 1")
    case True
    then show ?thesis by (simp add: bit_length.simps [of 1] bit_length.simps [of 0])
  next
    case False
    with 1 have pos: "0 < n div 2" by auto
    with 1 have ih: "2 ^ (bit_length (n div 2) - 1) \<le> n div 2"
      "n div 2 < 2 ^ bit_length (n div 2)" by auto
    from pos have "0 < bit_length (n div 2)"
      by (subst bit_length.simps) auto
    then obtain m where m: "bit_length (n div 2) = Suc m" by (cases "bit_length (n div 2)") auto
    have bl: "bit_length n = Suc (Suc m)"
      using 1(2) m by (subst bit_length.simps) auto
    from ih m have "2 ^ m \<le> n div 2" "n div 2 < 2 ^ Suc m" by simp_all
    then have "2 ^ Suc m \<le> n" "n < 2 ^ Suc (Suc m)" by auto
    with bl show ?thesis by simp
  qed
qed

lemma binade_eq:
  assumes "pow2 e \<le> \<bar>x\<bar>" and "\<bar>x\<bar> < pow2 (e + 1)"
  shows "binade x = e"
proof (cases "0 \<le> e")
  case True
  then obtain k where k: "e = int k" by (metis nat_0_le)
  from assms have lo: "2 ^ k \<le> \<bar>x\<bar>" and hi: "\<bar>x\<bar> < 2 ^ Suc k"
    by (simp_all add: k pow2_def nat_add_distrib)
  have one: "1 \<le> \<bar>x\<bar>" using lo by (meson one_le_numeral one_le_power order_trans)
  have "(2::int) ^ k \<le> \<lfloor>\<bar>x\<bar>\<rfloor>"
    using lo by (simp add: le_floor_iff)
  moreover have "\<lfloor>\<bar>x\<bar>\<rfloor> < (2::int) ^ Suc k"
    using hi by (simp add: floor_less_iff)
  ultimately have "bit_length \<lfloor>\<bar>x\<bar>\<rfloor> = Suc k" by (rule bit_length_unique)
  with one show ?thesis by (simp add: binade_def k)
next
  case False
  then obtain m where m: "e = - int (Suc m)"
    by (metis add.inverse_inverse int_cases neg_0_le_iff_le of_nat_0_le_iff)
  have "e + 1 = - int m" using m by simp
  with assms pow2_neg [of "Suc m"] pow2_neg [of m] m
  have lo: "1 / 2 ^ Suc m \<le> \<bar>x\<bar>" and hi: "\<bar>x\<bar> < 1 / 2 ^ m"
    by simp_all
  have pos: "0 < \<bar>x\<bar>" using lo by (smt (verit) divide_pos_pos zero_less_power)
  have small: "\<not> 1 \<le> \<bar>x\<bar>"
  proof -
    have "1 / 2 ^ m \<le> (1::real)" by (simp add: divide_le_eq)
    with hi show ?thesis by linarith
  qed
  have up: "1 / \<bar>x\<bar> \<le> 2 ^ Suc m"
    using lo pos by (simp add: field_simps)
  have down: "2 ^ m < 1 / \<bar>x\<bar>"
    using hi pos by (simp add: field_simps)
  have "\<lceil>1 / \<bar>x\<bar>\<rceil> \<le> (2::int) ^ Suc m"
    using up by (simp add: ceiling_le_iff)
  moreover have "(2::int) ^ m < \<lceil>1 / \<bar>x\<bar>\<rceil>"
    using down by (simp add: less_ceiling_iff)
  ultimately have "bit_length (\<lceil>1 / \<bar>x\<bar>\<rceil> - 1) = Suc m"
    by (intro bit_length_unique) auto
  with small show ?thesis by (simp add: binade_def m)
qed


lemma round_even_int [simp]: "round_even (of_int k) = k"
  by (simp add: round_even_def)



text \<open>Evaluation of the rounding once the binade is known.\<close>

lemma round_double_at:
  assumes "pow2 e \<le> \<bar>x\<bar>" and "\<bar>x\<bar> < pow2 (e + 1)"
  shows "round_double x =
           (let u = pow2 (max e (- 1022) - 52);
                y = of_int (round_even (x / u)) * u
            in if 2 ^ 1024 \<le> \<bar>y\<bar> then (if 0 < x then PosInf else NegInf) else Finite y)"
proof -
  have "x \<noteq> 0"
    using pow2_pos [of e] assms(1) by linarith
  with binade_eq [OF assms] show ?thesis
    by (simp add: round_double_def)
qed

lemma round_double_exact:
  assumes "pow2 e \<le> \<bar>x\<bar>" and "\<bar>x\<bar> < pow2 (e + 1)" and "- 1022 \<le> e" and "e \<le> 1023"
    and "x / pow2 (e - 52) \<in> \<int>"
  shows "round_double x = Finite x"
proof -
  from assms(5) obtain k where k: "x / pow2 (e - 52) = of_int k" by (auto elim: Ints_cases)
  then have x: "x = of_int k * pow2 (e - 52)"
    by (simp add: field_simps)
  have "pow2 (e + 1) \<le> pow2 1024" using assms(4) by (intro pow2_mono) simp
  with assms(2) have "\<bar>x\<bar> < 2 ^ 1024" by (simp add: pow2_def)
  with round_double_at [OF assms(1,2)] assms(3) k x show ?thesis
    by (simp add: Let_def max_def)
qed

lemma round_double_int:
  assumes "\<bar>n\<bar> < 2 ^ 53"
  shows "round_double (of_int n) = Finite (of_int n)"
proof (cases "n = 0")
  case True
  then show ?thesis by (simp add: round_double_def)
next
  case False
  then have pos: "0 < \<bar>n\<bar>" by simp
  define b where "b = bit_length \<bar>n\<bar>"
  from bit_length_bounds [OF pos] have lo: "2 ^ (b - 1) \<le> \<bar>n\<bar>" and hi: "\<bar>n\<bar> < 2 ^ b"
    by (simp_all add: b_def)
  have b0: "0 < b"
  proof (rule ccontr)
    assume "\<not> 0 < b"
    with hi pos show False by simp
  qed
  have b53: "b \<le> 53"
  proof (rule ccontr)
    assume "\<not> b \<le> 53"
    then have "53 \<le> b - 1" by simp
    then have "(2::int) ^ 53 \<le> 2 ^ (b - 1)" by (intro power_increasing) simp_all
    with lo assms show False by simp
  qed
  let ?e = "int b - 1"
  have e1: "pow2 ?e \<le> \<bar>real_of_int n\<bar>"
  proof -
    have "pow2 ?e = 2 ^ (b - 1)" using b0 by (simp add: pow2_def nat_diff_distrib')
    also have "\<dots> = real_of_int (2 ^ (b - 1))" by simp
    also have "\<dots> \<le> real_of_int \<bar>n\<bar>" using lo by (simp only: of_int_le_iff)
    finally show ?thesis by simp
  qed
  have e2: "\<bar>real_of_int n\<bar> < pow2 (?e + 1)"
  proof -
    have "real_of_int \<bar>n\<bar> < real_of_int (2 ^ b)" using hi by (simp only: of_int_less_iff)
    also have "\<dots> = pow2 (?e + 1)" by (simp add: pow2_def)
    finally show ?thesis by simp
  qed
  have int: "real_of_int n / pow2 (?e - 52) \<in> \<int>"
  proof -
    have "?e - 52 = - int (53 - b)" using b53 by simp
    then have "pow2 (?e - 52) = 1 / 2 ^ (53 - b)"
      by (simp only: pow2_neg)
    then have "real_of_int n / pow2 (?e - 52) = of_int (n * 2 ^ (53 - b))" by simp
    then show ?thesis by (simp only: Ints_of_int)
  qed
  from round_double_exact [OF e1 e2 _ _ int] b0 b53 show ?thesis by simp
qed


text \<open>Integers of magnitude below \<open>2^53\<close> are doubles.\<close>

lemma round_double_integral:
  assumes "x \<in> \<int>" and "\<bar>x\<bar> < 2 ^ 53"
  shows "round_double x = Finite x"
proof -
  from assms(1) obtain n where n: "x = of_int n" by (auto elim: Ints_cases)
  with assms(2) have "real_of_int \<bar>n\<bar> < real_of_int (2 ^ 53)" by simp
  then have "\<bar>n\<bar> < 2 ^ 53" by (simp only: of_int_less_iff)
  from round_double_int [OF this] n show ?thesis by simp
qed

lemma float_of_int_small: "\<bar>n\<bar> < 2 ^ 53 \<Longrightarrow> float_of_int n = Inr (Finite (of_int n))"
  by (simp add: float_of_int_def round_double_int)


lemma float_of_int_Inr: "float_of_int n = Inr f \<Longrightarrow> \<exists>y. f = Finite y"
  by (cases "round_double (real_of_int n)") (auto simp: float_of_int_def)

lemma float_of_int_0 [simp]: "float_of_int 0 = Inr (Finite 0)"
  by (simp add: float_of_int_def round_double_def)

subsection \<open>The order of floats\<close>

lemma flt_irrefl [simp]: "\<not> flt a a"
  by (cases a) simp_all

lemma flt_asym: "flt a b \<Longrightarrow> \<not> flt b a"
  by (cases a; cases b) simp_all

lemma flt_trans: "flt a b \<Longrightarrow> flt b c \<Longrightarrow> flt a c"
  by (cases a; cases b; cases c) simp_all

lemma flt_not_NaN: "flt a b \<Longrightarrow> a \<noteq> NaN \<and> b \<noteq> NaN"
  by (cases a; cases b) simp_all

lemma flt_total: "a \<noteq> NaN \<Longrightarrow> b \<noteq> NaN \<Longrightarrow> flt a b \<or> a = b \<or> flt b a"
  by (cases a; cases b) auto

lemma le_flt_trans: "\<not> flt b a \<Longrightarrow> flt b c \<Longrightarrow> a \<noteq> NaN \<Longrightarrow> flt a c"
  by (cases a; cases b; cases c) simp_all

lemma flt_le_trans: "flt a b \<Longrightarrow> \<not> flt c b \<Longrightarrow> c \<noteq> NaN \<Longrightarrow> flt a c"
  by (cases a; cases b; cases c) simp_all

lemma le_le_trans: "\<not> flt b a \<Longrightarrow> \<not> flt c b \<Longrightarrow> b \<noteq> NaN \<Longrightarrow> \<not> flt c a"
  by (cases a; cases b; cases c) simp_all



lemma fdiv_zero: "fdiv a (Finite 0) = Inl ZeroDivisionError"
  by simp

section \<open>Dictionaries\<close>

lemma map_of_dict_set: "map_of (dict_set d k v) = (map_of d)(k \<mapsto> v)"
  by (induction d) (auto simp: fun_eq_iff)

lemma keys_dict_set:
  "map fst (dict_set d k v) = (if k \<in> fst ` set d then map fst d else map fst d @ [k])"
  by (induction d) force+

lemma set_keys_dict_set: "fst ` set (dict_set d k v) = insert k (fst ` set d)"
proof -
  have "set (map fst (dict_set d k v)) = insert k (set (map fst d))"
    unfolding keys_dict_set by auto
  then show ?thesis by simp
qed

lemma distinct_keys_dict_set:
  "distinct (map fst d) \<Longrightarrow> distinct (map fst (dict_set d k v))"
  by (simp add: keys_dict_set)

lemma dict_get_Inr: "dict_get d k = Inr v \<longleftrightarrow> map_of d k = Some v"
  by (simp add: dict_get_def split: option.splits)

lemma dict_get_Inl: "dict_get d k = Inl e \<longleftrightarrow> map_of d k = None \<and> e = KeyError"
  by (auto simp: dict_get_def split: option.splits)

lemma map_of_None_keys: "map_of d k = None \<longleftrightarrow> k \<notin> fst ` set d"
  by (simp add: map_of_eq_None_iff)

section \<open>The loops over the registered lanes\<close>

subsection \<open>Wait counters\<close>

lemma update_waits_frame:
  "update_waits ls ids ch = Inr ls' \<Longrightarrow> l \<notin> set ids \<Longrightarrow> map_of ls' l = map_of ls l"
  by (induction ids arbitrary: ls)
     (auto simp: dict_get_Inr map_of_dict_set split: sum.splits)

lemma update_waits_keys:
  "update_waits ls ids ch = Inr ls' \<Longrightarrow> map fst ls' = map fst ls"
proof (induction ids arbitrary: ls)
  case Nil
  then show ?case by simp
next
  case (Cons lane rest)
  then obtain l where l: "map_of ls lane = Some l"
    by (auto simp: dict_get_Inr split: sum.splits)
  then have "lane \<in> fst ` set ls"
    by (metis map_of_None_keys option.distinct(1))
  with Cons l show ?case
    by (auto simp: dict_get_def keys_dict_set split: sum.splits)
qed

lemma update_waits_state:
  "update_waits ls ids ch = Inr ls' \<Longrightarrow>
     map_option state (map_of ls' l) = map_option state (map_of ls l)"
  by (induction ids arbitrary: ls)
     (auto simp: dict_get_Inr map_of_dict_set split: sum.splits if_splits)

lemma update_waits_wait:
  "update_waits ls ids ch = Inr ls' \<Longrightarrow> distinct ids \<Longrightarrow> l \<in> set ids \<Longrightarrow>
     map_option wait (map_of ls' l) =
       map_option (\<lambda>s. if l = ch then 0 else wait s + 1) (map_of ls l)"
proof (induction ids arbitrary: ls)
  case Nil
  then show ?case by simp
next
  case (Cons lane rest)
  from Cons.prems(1) obtain s where s: "map_of ls lane = Some s"
    and rest: "update_waits
        (dict_set ls lane (s\<lparr>wait := (if lane = ch then 0 else wait s + 1)\<rparr>)) rest ch = Inr ls'"
    by (auto simp: dict_get_Inr split: sum.splits)
  show ?case
  proof (cases "l = lane")
    case True
    with Cons.prems(2) have "l \<notin> set rest" by simp
    from update_waits_frame [OF rest this] True s show ?thesis
      by (simp add: map_of_dict_set)
  next
    case False
    with Cons.prems have "l \<in> set rest" "distinct rest" by simp_all
    from Cons.IH [OF rest this(2) this(1)] False show ?thesis
      by (simp add: map_of_dict_set)
  qed
qed

lemma update_waits_present:
  "update_waits ls ids ch = Inr ls' \<Longrightarrow> l \<in> set ids \<Longrightarrow> map_of ls l \<noteq> None"
proof (induction ids arbitrary: ls)
  case Nil
  then show ?case by simp
next
  case (Cons lane rest)
  from Cons.prems(1) obtain s where s: "map_of ls lane = Some s"
    and rest: "update_waits
        (dict_set ls lane (s\<lparr>wait := (if lane = ch then 0 else wait s + 1)\<rparr>)) rest ch = Inr ls'"
    by (auto simp: dict_get_Inr split: sum.splits)
  show ?case
  proof (cases "l = lane")
    case True
    with s show ?thesis by simp
  next
    case False
    with Cons.prems have "l \<in> set rest" by simp
    from Cons.IH [OF rest this] False show ?thesis
      by (simp add: map_of_dict_set)
  qed
qed

subsection \<open>Phases\<close>

lemma paint_lanes_frame:
  "paint_lanes ls ids g = Inr ls' \<Longrightarrow> l \<notin> set ids \<Longrightarrow> map_of ls' l = map_of ls l"
  by (induction ids arbitrary: ls)
     (auto simp: dict_get_Inr map_of_dict_set split: sum.splits)

lemma paint_lanes_wait:
  "paint_lanes ls ids g = Inr ls' \<Longrightarrow>
     map_option wait (map_of ls' l) = map_option wait (map_of ls l)"
  by (induction ids arbitrary: ls)
     (auto simp: dict_get_Inr map_of_dict_set split: sum.splits if_splits)

lemma paint_lanes_state:
  "paint_lanes ls ids g = Inr ls' \<Longrightarrow> l \<in> set ids \<Longrightarrow>
     map_option state (map_of ls' l) = Some (if l = g then YELLOW else RED)"
proof (induction ids arbitrary: ls)
  case Nil
  then show ?case by simp
next
  case (Cons lane rest)
  from Cons.prems(1) obtain s where s: "map_of ls lane = Some s"
    and rest: "paint_lanes
        (dict_set ls lane (s\<lparr>state := (if lane = g then YELLOW else RED)\<rparr>)) rest g = Inr ls'"
    by (auto simp: dict_get_Inr split: sum.splits)
  show ?case
  proof (cases "l \<in> set rest")
    case True
    from Cons.IH [OF rest True] show ?thesis .
  next
    case False
    with Cons.prems(2) have "l = lane" by simp
    with paint_lanes_frame [OF rest False] show ?thesis
      by (simp add: map_of_dict_set)
  qed
qed

lemma apply_yellow_fields:
  assumes "apply_yellow c g now = Inr c'"
  shows "current_green c' = Some g" and "green_started_at c' = Some now"
    and "lane_ids c' = lane_ids c" and "current_green_time c' = current_green_time c"
    and "last_emergency_lane c' = last_emergency_lane c"
    and "min_green c' = min_green c" and "max_green c' = max_green c"
    and "clearance_rate c' = clearance_rate c" and "wait_boost c' = wait_boost c"
    and "starvation_limit c' = starvation_limit c"
  using assms by (auto simp: apply_yellow_def split: sum.splits)

lemma apply_yellow_wait:
  assumes "apply_yellow c g now = Inr c'"
  shows "map_option wait (map_of (lanes c') l) = map_option wait (map_of (lanes c) l)"
proof -
  from assms obtain ls s where ls: "paint_lanes (lanes c) (lane_ids c) g = Inr ls"
    and s: "map_of ls g = Some s"
    and c': "lanes c' = dict_set ls g (s\<lparr>state := GREEN\<rparr>)"
    by (auto simp: apply_yellow_def dict_get_Inr split: sum.splits)
  from paint_lanes_wait [OF ls, of l] s c' show ?thesis
    by (auto simp: map_of_dict_set)
qed

lemma apply_yellow_state:
  assumes "apply_yellow c g now = Inr c'" and "l \<in> set (lane_ids c)"
  shows "map_option state (map_of (lanes c') l) = Some (if l = g then GREEN else RED)"
proof -
  from assms obtain ls s where ls: "paint_lanes (lanes c) (lane_ids c) g = Inr ls"
    and s: "map_of ls g = Some s"
    and c': "lanes c' = dict_set ls g (s\<lparr>state := GREEN\<rparr>)"
    by (auto simp: apply_yellow_def dict_get_Inr split: sum.splits)
  from paint_lanes_state [OF ls assms(2)] c' show ?thesis
    by (auto simp: map_of_dict_set)
qed

subsection \<open>Queues and the report\<close>

lemma store_queues_wait:
  "store_queues ls ids data = Inr ls' \<Longrightarrow>
     map_option wait (map_of ls' l) = map_option wait (map_of ls l)"
  by (induction ids arbitrary: ls)
     (auto simp: dict_get_Inr map_of_dict_set split: sum.splits if_splits)

lemma store_queues_state:
  "store_queues ls ids data = Inr ls' \<Longrightarrow>
     map_option state (map_of ls' l) = map_option state (map_of ls l)"
  by (induction ids arbitrary: ls)
     (auto simp: dict_get_Inr map_of_dict_set split: sum.splits if_splits)

definition report_of :: "lane \<Rightarrow> lane_report" where
  "report_of s = \<lparr>report_state = state s, report_wait = wait s, green_time = None\<rparr>"

lemma report_lanes_lookup:
  "report_lanes ls ids out = Inr out' \<Longrightarrow>
     map_of out' l =
       (if l \<in> set ids then map_option report_of (map_of ls l) else map_of out l)"
proof (induction ids arbitrary: out)
  case Nil
  then show ?case by simp
next
  case (Cons lane rest)
  from Cons.prems obtain s where s: "map_of ls lane = Some s"
    and rest: "report_lanes ls rest (dict_set out lane (report_of s)) = Inr out'"
    by (auto simp: dict_get_Inr report_of_def split: sum.splits)
  from Cons.IH [OF rest] s show ?case
    by (auto simp: map_of_dict_set)
qed

lemma report_lanes_keys:
  "report_lanes ls ids out = Inr out' \<Longrightarrow> fst ` set out' = fst ` set out \<union> set ids"
  by (induction ids arbitrary: out)
     (auto simp: set_keys_dict_set split: sum.splits)

lemma report_lanes_distinct:
  "report_lanes ls ids out = Inr out' \<Longrightarrow> distinct (map fst out) \<Longrightarrow>
     distinct (map fst out')"
  by (induction ids arbitrary: out)
     (auto simp: distinct_keys_dict_set split: sum.splits)

lemma build_output_Inr:
  assumes "build_output c = Inr out"
  obtains g where "current_green c = Some g" and "g \<in> set (lane_ids c)"
    and "\<And>l. map_of out l =
           (if l \<in> set (lane_ids c)
            then map_option
                   (\<lambda>s. (report_of s)\<lparr>green_time :=
                            (if l = g then Some (current_green_time c) else None)\<rparr>)
                   (map_of (lanes c) l)
            else None)"
    and "distinct (map fst out)" and "fst ` set out = set (lane_ids c)"
proof -
  from assms obtain out0 g r where out0: "report_lanes (lanes c) (lane_ids c) [] = Inr out0"
    and g: "current_green c = Some g" and r: "map_of out0 g = Some r"
    and out: "out = dict_set out0 g (r\<lparr>green_time := Some (current_green_time c)\<rparr>)"
    by (auto simp: build_output_def dict_get_Inr split: sum.splits option.splits)
  note look = report_lanes_lookup [OF out0]
  from r look [of g] have gin: "g \<in> set (lane_ids c)"
    by (auto split: if_splits)
  have keys0: "fst ` set out0 = set (lane_ids c)"
    using report_lanes_keys [OF out0] by simp
  have "map_of out l =
           (if l \<in> set (lane_ids c)
            then map_option
                   (\<lambda>s. (report_of s)\<lparr>green_time :=
                            (if l = g then Some (current_green_time c) else None)\<rparr>)
                   (map_of (lanes c) l)
            else None)" for l
    using look [of l] look [of g] r gin
    by (cases "map_of (lanes c) l"; cases "map_of (lanes c) g")
       (auto simp: out map_of_dict_set report_of_def)
  moreover have "distinct (map fst out)"
    using report_lanes_distinct [OF out0] by (simp add: out distinct_keys_dict_set)
  moreover have "fst ` set out = set (lane_ids c)"
    using keys0 gin by (auto simp: out set_keys_dict_set)
  ultimately show ?thesis using that g gin by blast
qed

subsection \<open>The selectors change nothing but the emergency memory\<close>

lemma choose_emergency_lane_frame:
  "choose_emergency_lane c data = Inr (c1, x) \<Longrightarrow>
     c1 = c\<lparr>last_emergency_lane := last_emergency_lane c1\<rparr>"
  by (auto simp: choose_emergency_lane_def Let_def split: sum.splits if_splits)

lemma select_lane_frame:
  "select_lane c data now = Inr (c1, ch) \<Longrightarrow>
     c1 = c\<lparr>last_emergency_lane := last_emergency_lane c1\<rparr>"
  by (auto simp: select_lane_def split: sum.splits option.splits if_splits
           dest: choose_emergency_lane_frame)

lemma frame_fields:
  assumes "c1 = c\<lparr>last_emergency_lane := m\<rparr>"
  shows "lane_ids c1 = lane_ids c" and "lanes c1 = lanes c"
    and "current_green c1 = current_green c" and "green_started_at c1 = green_started_at c"
    and "current_green_time c1 = current_green_time c"
    and "min_green c1 = min_green c" and "max_green c1 = max_green c"
    and "clearance_rate c1 = clearance_rate c" and "wait_boost c1 = wait_boost c"
    and "starvation_limit c1 = starvation_limit c"
  using assms by simp_all

section \<open>The fairness selector picks the first largest score\<close>

lemma dict_set_append: "k \<notin> fst ` set d \<Longrightarrow> dict_set d k v = d @ [(k, v)]"
  by (induction d) auto

text \<open>
  The scan of \<^verbatim>\<open>max\<close> over scores none of which is NaN ends at the first entry that
  no entry exceeds.
\<close>

lemma fold_first_max:
  fixes b :: "'k \<times> pyfloat"
  defines "step \<equiv> (\<lambda>kv' best. if flt (snd best) (snd kv') then kv' else best)"
  assumes "\<forall>kv \<in> set (b # xs). snd kv \<noteq> NaN"
  shows "\<exists>i < length (b # xs). fold step xs b = (b # xs) ! i
           \<and> (\<forall>j < length (b # xs). \<not> flt (snd ((b # xs) ! i)) (snd ((b # xs) ! j)))
           \<and> (\<forall>j < i. flt (snd ((b # xs) ! j)) (snd ((b # xs) ! i)))"
  using assms(2)
proof (induction xs rule: rev_induct)
  case Nil
  then show ?case by simp
next
  case (snoc y ys)
  from snoc.prems have nan: "\<forall>kv \<in> set (b # ys). snd kv \<noteq> NaN" and y: "snd y \<noteq> NaN"
    by auto
  from snoc.IH [OF nan] obtain i where i: "i < length (b # ys)"
    and r: "fold step ys b = (b # ys) ! i"
    and le: "\<And>j. j < length (b # ys) \<Longrightarrow> \<not> flt (snd ((b # ys) ! i)) (snd ((b # ys) ! j))"
    and lt: "\<And>j. j < i \<Longrightarrow> flt (snd ((b # ys) ! j)) (snd ((b # ys) ! i))"
    by blast
  let ?zs = "b # ys @ [y]"
  have zs: "?zs = (b # ys) @ [y]" by simp
  have old: "?zs ! j = (b # ys) ! j" if "j < length (b # ys)" for j
    unfolding zs using that by (simp only: nth_append if_True)
  have new: "?zs ! length (b # ys) = y"
    unfolding zs by (simp only: nth_append_length)
  have clean: "snd ((b # ys) ! j) \<noteq> NaN" if "j < length (b # ys)" for j
    using nan that by (metis nth_mem)
  show ?case
  proof (cases "flt (snd ((b # ys) ! i)) (snd y)")
    case True
    have res: "fold step (ys @ [y]) b = y"
      using True r by (simp add: step_def)
    show ?thesis
    proof (intro exI [of _ "length (b # ys)"] conjI allI impI)
      show "length (b # ys) < length ?zs" by simp
      show "fold step (ys @ [y]) b = ?zs ! length (b # ys)"
        using res new by simp
    next
      fix j assume "j < length ?zs"
      then consider "j < length (b # ys)" | "j = length (b # ys)" by fastforce
      then show "\<not> flt (snd (?zs ! length (b # ys))) (snd (?zs ! j))"
      proof cases
        case 1
        have "\<not> flt (snd y) (snd ((b # ys) ! j))"
        proof
          assume "flt (snd y) (snd ((b # ys) ! j))"
          with True have "flt (snd ((b # ys) ! i)) (snd ((b # ys) ! j))" by (rule flt_trans)
          with le [OF 1] show False by simp
        qed
        with old [OF 1] new show ?thesis by simp
      next
        case 2
        then show ?thesis by simp
      qed
    next
      fix j assume j: "j < length (b # ys)"
      from le_flt_trans [OF le [OF j] True clean [OF j]] old [OF j] new
      show "flt (snd (?zs ! j)) (snd (?zs ! length (b # ys)))" by simp
    qed
  next
    case False
    have res: "fold step (ys @ [y]) b = (b # ys) ! i"
      using False r by (simp add: step_def)
    show ?thesis
    proof (intro exI [of _ i] conjI allI impI)
      show "i < length ?zs" using i by simp
      show "fold step (ys @ [y]) b = ?zs ! i"
        using res old [OF i] by simp
    next
      fix j assume "j < length ?zs"
      then consider "j < length (b # ys)" | "j = length (b # ys)" by fastforce
      then show "\<not> flt (snd (?zs ! i)) (snd (?zs ! j))"
      proof cases
        case 1
        with le [OF 1] old [OF 1] old [OF i] show ?thesis by simp
      next
        case 2
        with False new old [OF i] show ?thesis by simp
      qed
    next
      fix j assume j: "j < i"
      with i have j': "j < length (b # ys)" by simp
      from lt [OF j] old [OF j'] old [OF i]
      show "flt (snd (?zs ! j)) (snd (?zs ! i))" by simp
    qed
  qed
qed

lemma max_key_Inr:
  assumes "max_key d = Inr k" and "\<forall>kv \<in> set d. snd kv \<noteq> NaN"
  shows "\<exists>i < length d. k = fst (d ! i)
           \<and> (\<forall>j < length d. \<not> flt (snd (d ! i)) (snd (d ! j)))
           \<and> (\<forall>j < i. flt (snd (d ! j)) (snd (d ! i)))"
proof (cases d)
  case Nil
  with assms show ?thesis by (simp add: max_key_def)
next
  case (Cons b xs)
  with assms have k: "k = fst (fold (\<lambda>kv' best. if flt (snd best) (snd kv') then kv' else best) xs b)"
    by (simp add: max_key_def)
  have nan: "\<forall>kv \<in> set (b # xs). snd kv \<noteq> NaN"
    using assms(2) Cons by simp
  from fold_first_max [OF nan] obtain i where i: "i < length (b # xs)"
    and r: "fold (\<lambda>kv' best. if flt (snd best) (snd kv') then kv' else best) xs b = (b # xs) ! i"
    and le: "\<forall>j < length (b # xs). \<not> flt (snd ((b # xs) ! i)) (snd ((b # xs) ! j))"
    and lt: "\<forall>j < i. flt (snd ((b # xs) ! j)) (snd ((b # xs) ! i))"
    by blast
  from k r have "k = fst ((b # xs) ! i)" by simp
  with i le lt show ?thesis unfolding Cons by blast
qed

lemma max_key_member: "max_key d = Inr k \<Longrightarrow> k \<in> fst ` set d"
proof (cases d)
  case Nil
  then show "max_key d = Inr k \<Longrightarrow> ?thesis" by (simp add: max_key_def)
next
  case (Cons b xs)
  have "fold (\<lambda>kv' best. if flt (snd best) (snd kv') then kv' else best) ys a \<in> set (a # ys)"
    for a :: "'a \<times> pyfloat" and ys
    by (induction ys arbitrary: a) auto
  from this [of xs b] Cons show "max_key d = Inr k \<Longrightarrow> ?thesis"
    by (auto simp: max_key_def)
qed

lemma max_key_total: "d \<noteq> [] \<Longrightarrow> \<exists>k. max_key d = Inr k"
  by (cases d) (simp_all add: max_key_def)

text \<open>
  The score of a lane of the snapshot; NaN stands in where the snapshot lacks the lane
  or the score raises.
\<close>

definition score_in :: "controller \<Rightarrow> (string, lane_data) dict \<Rightarrow> string \<Rightarrow> pyfloat" where
  "score_in c data l =
     (case map_of data l of
        None \<Rightarrow> NaN
      | Some d \<Rightarrow> (case lane_score c d of Inl e \<Rightarrow> NaN | Inr s \<Rightarrow> s))"

lemma score_in_present:
  "map_of data l = Some d \<Longrightarrow> lane_score c d = Inr s \<Longrightarrow> score_in c data l = s"
  by (simp add: score_in_def)

lemma build_scores_Inr:
  "build_scores c data ids acc = Inr scores \<Longrightarrow> distinct ids \<Longrightarrow>
     set ids \<inter> fst ` set acc = {} \<Longrightarrow>
     scores = acc @ map (\<lambda>l. (l, score_in c data l)) ids
     \<and> (\<forall>l \<in> set ids. \<exists>d. map_of data l = Some d \<and> lane_score c d = Inr (score_in c data l))"
proof (induction ids arbitrary: acc)
  case Nil
  then show ?case by simp
next
  case (Cons lane rest)
  from Cons.prems(1) obtain d s where d: "map_of data lane = Some d"
    and s: "lane_score c d = Inr s"
    and rest: "build_scores c data rest (dict_set acc lane s) = Inr scores"
    by (auto simp: dict_get_Inr split: sum.splits)
  from Cons.prems(3) have fresh: "lane \<notin> fst ` set acc" by auto
  have acc': "dict_set acc lane s = acc @ [(lane, s)]"
    using fresh by (rule dict_set_append)
  have disj: "set rest \<inter> fst ` set (acc @ [(lane, s)]) = {}"
    using Cons.prems(2,3) by auto
  from Cons.IH [OF rest [unfolded acc'] _ disj] Cons.prems(2) d s show ?case
    by (simp add: score_in_def)
qed

lemma choose_normal_lane_first_max:
  assumes "choose_normal_lane c data = Inr l" and "distinct (lane_ids c)"
    and "\<forall>l' \<in> set (lane_ids c). score_in c data l' \<noteq> NaN"
  shows "\<exists>i < length (lane_ids c). l = lane_ids c ! i
           \<and> (\<forall>j < length (lane_ids c).
                  \<not> flt (score_in c data l) (score_in c data (lane_ids c ! j)))
           \<and> (\<forall>j < i. flt (score_in c data (lane_ids c ! j)) (score_in c data l))"
proof -
  from assms(1) obtain scores where b: "build_scores c data (lane_ids c) [] = Inr scores"
    and m: "max_key scores = Inr l"
    by (auto simp: choose_normal_lane_def split: sum.splits)
  from build_scores_Inr [OF b assms(2)]
  have scores: "scores = map (\<lambda>l. (l, score_in c data l)) (lane_ids c)"
    by simp
  have "\<forall>kv \<in> set scores. snd kv \<noteq> NaN"
    using assms(3) by (auto simp: scores)
  from max_key_Inr [OF m this] obtain i where i: "i < length scores" and l: "l = fst (scores ! i)"
    and le: "\<forall>j < length scores. \<not> flt (snd (scores ! i)) (snd (scores ! j))"
    and lt: "\<forall>j < i. flt (snd (scores ! j)) (snd (scores ! i))"
    by blast
  have len: "length scores = length (lane_ids c)" by (simp add: scores)
  have nth: "scores ! j = (lane_ids c ! j, score_in c data (lane_ids c ! j))"
    if "j < length (lane_ids c)" for j
    using that by (simp add: scores)
  show ?thesis
  proof (intro exI [of _ i] conjI allI impI)
    show "i < length (lane_ids c)" using i len by simp
    show li: "l = lane_ids c ! i" using l nth i len by simp
    fix j assume j: "j < length (lane_ids c)"
    show "\<not> flt (score_in c data l) (score_in c data (lane_ids c ! j))"
      using le j len nth [OF j] nth [of i] i li by auto
  next
    fix j assume j: "j < i"
    with i len have j': "j < length (lane_ids c)" by simp
    from lt j nth [OF j'] nth [of i] i len l
    show "flt (score_in c data (lane_ids c ! j)) (score_in c data l)" by auto
  qed
qed

lemma choose_normal_lane_Inr:
  assumes "choose_normal_lane c data = Inr l" and "distinct (lane_ids c)"
  shows "l \<in> set (lane_ids c)"
    and "\<forall>l' \<in> set (lane_ids c).
           \<exists>d. map_of data l' = Some d \<and> lane_score c d = Inr (score_in c data l')"
proof -
  from assms(1) obtain scores where b: "build_scores c data (lane_ids c) [] = Inr scores"
    and m: "max_key scores = Inr l"
    by (auto simp: choose_normal_lane_def split: sum.splits)
  from build_scores_Inr [OF b assms(2)]
  have scores: "scores = map (\<lambda>l. (l, score_in c data l)) (lane_ids c)"
    and all: "\<forall>l' \<in> set (lane_ids c).
           \<exists>d. map_of data l' = Some d \<and> lane_score c d = Inr (score_in c data l')"
    by simp_all
  from max_key_member [OF m] show "l \<in> set (lane_ids c)"
    by (auto simp: scores)
  from all show "\<forall>l' \<in> set (lane_ids c).
           \<exists>d. map_of data l' = Some d \<and> lane_score c d = Inr (score_in c data l')" .
qed

section \<open>When the loops return\<close>

lemma keys_dict_set_present:
  "k \<in> fst ` set d \<Longrightarrow> map fst (dict_set d k v) = map fst d"
  by (simp add: keys_dict_set)

lemma present_lookup: "k \<in> fst ` set d \<Longrightarrow> \<exists>v. map_of d k = Some v"
  by (metis map_of_None_keys not_Some_eq)

lemma lookup_present: "map_of d k = Some v \<Longrightarrow> k \<in> fst ` set d"
  by (metis map_of_None_keys option.distinct(1))

lemma update_waits_total:
  "set ids \<subseteq> fst ` set ls \<Longrightarrow> \<exists>ls'. update_waits ls ids ch = Inr ls'"
proof (induction ids arbitrary: ls)
  case Nil
  then show ?case by simp
next
  case (Cons lane rest)
  then obtain s where s: "map_of ls lane = Some s"
    using present_lookup [of lane ls] by auto
  let ?ls = "dict_set ls lane (s\<lparr>wait := (if lane = ch then 0 else wait s + 1)\<rparr>)"
  have "set rest \<subseteq> fst ` set ?ls"
    using Cons.prems by (auto simp: set_keys_dict_set)
  from Cons.IH [OF this] s show ?case
    by (simp add: dict_get_def)
qed

lemma paint_lanes_keys:
  "paint_lanes ls ids g = Inr ls' \<Longrightarrow> map fst ls' = map fst ls"
proof (induction ids arbitrary: ls)
  case Nil
  then show ?case by simp
next
  case (Cons lane rest)
  then obtain s where s: "map_of ls lane = Some s"
    by (auto simp: dict_get_Inr split: sum.splits)
  with Cons show ?case
    by (auto simp: dict_get_def keys_dict_set_present lookup_present split: sum.splits)
qed

lemma paint_lanes_total:
  "set ids \<subseteq> fst ` set ls \<Longrightarrow> \<exists>ls'. paint_lanes ls ids g = Inr ls'"
proof (induction ids arbitrary: ls)
  case Nil
  then show ?case by simp
next
  case (Cons lane rest)
  then obtain s where s: "map_of ls lane = Some s"
    using present_lookup [of lane ls] by auto
  let ?ls = "dict_set ls lane (s\<lparr>state := (if lane = g then YELLOW else RED)\<rparr>)"
  have "set rest \<subseteq> fst ` set ?ls"
    using Cons.prems by (auto simp: set_keys_dict_set)
  from Cons.IH [OF this] s show ?case
    by (simp add: dict_get_def)
qed

lemma apply_yellow_keys:
  assumes "apply_yellow c g now = Inr c'"
  shows "map fst (lanes c') = map fst (lanes c)"
proof -
  from assms obtain ls s where ls: "paint_lanes (lanes c) (lane_ids c) g = Inr ls"
    and s: "map_of ls g = Some s"
    and c': "lanes c' = dict_set ls g (s\<lparr>state := GREEN\<rparr>)"
    by (auto simp: apply_yellow_def dict_get_Inr split: sum.splits)
  from paint_lanes_keys [OF ls] lookup_present [OF s] c' show ?thesis
    by (simp add: keys_dict_set_present)
qed

lemma apply_yellow_total:
  assumes "set (lane_ids c) \<subseteq> fst ` set (lanes c)" and "g \<in> fst ` set (lanes c)"
  shows "\<exists>c'. apply_yellow c g now = Inr c'"
proof -
  from paint_lanes_total [OF assms(1)] obtain ls
    where ls: "paint_lanes (lanes c) (lane_ids c) g = Inr ls" by blast
  from paint_lanes_keys [OF ls] assms(2) have "g \<in> fst ` set ls"
    by (metis list.set_map)
  from present_lookup [OF this] ls show ?thesis
    by (auto simp: apply_yellow_def dict_get_def)
qed

lemma store_queues_keys:
  "store_queues ls ids data = Inr ls' \<Longrightarrow> map fst ls' = map fst ls"
proof (induction ids arbitrary: ls)
  case Nil
  then show ?case by simp
next
  case (Cons lane rest)
  then obtain s where s: "map_of ls lane = Some s"
    by (auto simp: dict_get_Inr split: sum.splits)
  with Cons show ?case
    by (auto simp: dict_get_def keys_dict_set_present lookup_present split: sum.splits)
qed

lemma store_queues_total:
  "set ids \<subseteq> fst ` set ls \<Longrightarrow> set ids \<subseteq> fst ` set data \<Longrightarrow>
     \<exists>ls'. store_queues ls ids data = Inr ls'"
proof (induction ids arbitrary: ls)
  case Nil
  then show ?case by simp
next
  case (Cons lane rest)
  then obtain s d where s: "map_of ls lane = Some s" and d: "map_of data lane = Some d"
    using present_lookup [of lane ls] present_lookup [of lane data] by auto
  let ?ls = "dict_set ls lane (s\<lparr>normal := normal d\<rparr>)"
  have "set rest \<subseteq> fst ` set ?ls"
    using Cons.prems by (auto simp: set_keys_dict_set)
  from Cons.IH [OF this] Cons.prems(2) s d show ?case
    by (simp add: dict_get_def)
qed

lemma arrivals_keys:
  "arrivals data ids ch rnd k = Inr data' \<Longrightarrow> map fst data' = map fst data"
proof (induction ids arbitrary: data k)
  case Nil
  then show ?case by simp
next
  case (Cons lane rest)
  show ?case
  proof (cases "lane = ch")
    case True
    with Cons show ?thesis by simp
  next
    case False
    with Cons.prems obtain d where d: "map_of data lane = Some d"
      by (auto simp: dict_get_Inr split: sum.splits)
    with Cons False show ?thesis
      by (auto simp: dict_get_def keys_dict_set_present lookup_present split: sum.splits)
  qed
qed

lemma arrivals_total:
  "set ids \<subseteq> fst ` set data \<Longrightarrow> \<exists>data'. arrivals data ids ch rnd k = Inr data'"
proof (induction ids arbitrary: data k)
  case Nil
  then show ?case by simp
next
  case (Cons lane rest)
  then obtain d where d: "map_of data lane = Some d"
    using present_lookup [of lane data] by auto
  let ?data = "dict_set data lane (d\<lparr>normal := normal d + rnd k\<rparr>)"
  have "set rest \<subseteq> fst ` set ?data"
    using Cons.prems by (auto simp: set_keys_dict_set)
  from Cons.IH [OF this] Cons.IH [of data] Cons.prems d show ?case
    by (simp add: dict_get_def)
qed

lemma simulate_flow_keys:
  assumes "simulate_flow c data ch g rnd = Inr data'"
  shows "map fst data' = map fst data"
proof -
  from assms obtain d cap where d: "map_of data ch = Some d"
    and a: "arrivals (dict_set data ch (d\<lparr>normal := normal d - min (normal d) cap\<rparr>))
              (lane_ids c) ch rnd 0 = Inr data'"
    by (auto simp: simulate_flow_def dict_get_Inr Let_def split: sum.splits)
  from arrivals_keys [OF a] lookup_present [OF d] show ?thesis
    by (simp add: keys_dict_set_present)
qed

lemma report_lanes_total:
  "set ids \<subseteq> fst ` set ls \<Longrightarrow> \<exists>out'. report_lanes ls ids out = Inr out'"
proof (induction ids arbitrary: out)
  case Nil
  then show ?case by simp
next
  case (Cons lane rest)
  then obtain s where s: "map_of ls lane = Some s"
    using present_lookup [of lane ls] by auto
  from Cons.IH [of "dict_set out lane
      \<lparr>report_state = state s, report_wait = wait s, green_time = None\<rparr>"] Cons.prems s
  show ?case by (simp add: dict_get_def)
qed

lemma build_output_total:
  assumes "set (lane_ids c) \<subseteq> fst ` set (lanes c)" and "current_green c = Some g"
    and "g \<in> set (lane_ids c)"
  shows "\<exists>out. build_output c = Inr out"
proof -
  from report_lanes_total [OF assms(1)] obtain out0
    where out0: "report_lanes (lanes c) (lane_ids c) [] = Inr out0" by blast
  from report_lanes_keys [OF out0] assms(3) have "g \<in> fst ` set out0" by simp
  from present_lookup [OF this] out0 assms(2) show ?thesis
    by (auto simp: build_output_def dict_get_def)
qed

lemma merge_readings_keys:
  "merge_readings ls rd acc = Inr data \<Longrightarrow>
     fst ` set data = fst ` set acc \<union> lane_id ` set rd \<and> lane_id ` set rd \<subseteq> fst ` set ls"
proof (induction rd arbitrary: acc)
  case Nil
  then show ?case by simp
next
  case (Cons r rest)
  from Cons.prems obtain s where s: "map_of ls (lane_id r) = Some s"
    and rest: "merge_readings ls rest
        (dict_set acc (lane_id r) \<lparr>normal = normal r, emergency = emergency r, wait = wait s\<rparr>)
        = Inr data"
    by (auto simp: dict_get_Inr split: sum.splits)
  from Cons.IH [OF rest] lookup_present [OF s] show ?case
    by (auto simp: set_keys_dict_set)
qed

lemma merge_readings_total:
  "lane_id ` set rd \<subseteq> fst ` set ls \<Longrightarrow> \<exists>data. merge_readings ls rd acc = Inr data"
proof (induction rd arbitrary: acc)
  case Nil
  then show ?case by simp
next
  case (Cons r rest)
  then obtain s where s: "map_of ls (lane_id r) = Some s"
    using present_lookup [of "lane_id r" ls] by auto
  from Cons.IH [of "dict_set acc (lane_id r)
      \<lparr>normal = normal r, emergency = emergency r, wait = wait s\<rparr>"] Cons.prems s
  show ?case by (simp add: dict_get_def)
qed

section \<open>The emergency selector\<close>

text \<open>
  The selector in the words of the specification: the largest emergency count of the
  snapshot, and the lanes tied at it, in the order of the snapshot.
\<close>

definition max_emergency :: "(string, lane_data) dict \<Rightarrow> int" where
  "max_emergency data = Max (set (map (\<lambda>(l, d). emergency d) data))"

definition tied_at_max :: "(string, lane_data) dict \<Rightarrow> string list" where
  "tied_at_max data = map fst (filter (\<lambda>(l, d). emergency d = max_emergency data) data)"

lemma py_max_Max: "xs \<noteq> [] \<Longrightarrow> py_max xs = Inr (Max (set xs))"
proof (cases xs)
  case Nil
  then show "xs \<noteq> [] \<Longrightarrow> ?thesis" by simp
next
  case (Cons x rest)
  have step: "(\<lambda>y best :: int. if best < y then y else best) = max"
    by (auto simp: fun_eq_iff max_def)
  have "Max (set (x # rest)) = fold max rest x"
    by (rule Max.set_eq_fold)
  with Cons step show ?thesis
    by (simp add: py_max_def)
qed

lemma choose_emergency_lane_none:
  "\<forall>(l, d) \<in> set data. \<not> 0 < emergency d \<Longrightarrow> choose_emergency_lane c data = Inr (c, None)"
  by (auto simp: choose_emergency_lane_def Let_def filter_empty_conv)

lemma max_emergency_bounds:
  assumes "(l, d) \<in> set data"
  shows "emergency d \<le> max_emergency data"
proof -
  from assms have "emergency d \<in> set (map (\<lambda>(l, d). emergency d) data)" by force
  then show ?thesis unfolding max_emergency_def by (intro Max_ge) simp_all
qed

lemma max_emergency_attained:
  assumes "data \<noteq> []"
  shows "\<exists>l d. (l, d) \<in> set data \<and> emergency d = max_emergency data"
proof -
  from assms have "Max (set (map (\<lambda>(l, d). emergency d) data))
      \<in> set (map (\<lambda>(l, d). emergency d) data)"
    by (intro Max_in) simp_all
  then show ?thesis unfolding max_emergency_def by force
qed

lemma emergencies_max:
  assumes "(l, d) \<in> set data" and "0 < emergency d"
  shows "Max (set (map (\<lambda>(l, d). emergency d) (filter (\<lambda>(l, d). 0 < emergency d) data)))
           = max_emergency data"
    and "0 < max_emergency data"
proof -
  from assms(1) have ne: "data \<noteq> []" by auto
  from max_emergency_bounds [OF assms(1)] assms(2) show pos: "0 < max_emergency data" by simp
  from max_emergency_attained [OF ne] obtain l' d' where top: "(l', d') \<in> set data"
    "emergency d' = max_emergency data" by blast
  show "Max (set (map (\<lambda>(l, d). emergency d) (filter (\<lambda>(l, d). 0 < emergency d) data)))
           = max_emergency data"
  proof (rule Max_eqI)
    show "finite (set (map (\<lambda>(l, d). emergency d) (filter (\<lambda>(l, d). 0 < emergency d) data)))"
      by simp
    fix y
    assume "y \<in> set (map (\<lambda>(l, d). emergency d) (filter (\<lambda>(l, d). 0 < emergency d) data))"
    then show "y \<le> max_emergency data"
      using max_emergency_bounds by auto
  next
    from top pos show "max_emergency data
        \<in> set (map (\<lambda>(l, d). emergency d) (filter (\<lambda>(l, d). 0 < emergency d) data))"
      by force
  qed
qed

lemma tied_filter:
  "0 < m \<Longrightarrow>
     filter (\<lambda>(l, d). emergency d = m) (filter (\<lambda>(l, d). 0 < emergency d) data)
       = filter (\<lambda>(l, d :: lane_data). emergency d = m) data"
  by (induction data) auto

lemma tied_at_max_nonempty: "data \<noteq> [] \<Longrightarrow> tied_at_max data \<noteq> []"
  using max_emergency_attained [of data]
  by (auto simp: tied_at_max_def filter_empty_conv)

lemma tied_at_max_keys: "set (tied_at_max data) \<subseteq> fst ` set data"
  by (auto simp: tied_at_max_def)

lemma scan_order_rotate: "scan_order ids start = rotate start ids"
  by (rule nth_equalityI) (simp_all add: scan_order_def nth_rotate add.commute)

lemma index_of_member:
  "x \<in> set xs \<Longrightarrow>
     \<exists>i < length xs. index_of xs x = Inr i \<and> xs ! i = x \<and> (\<forall>j < i. xs ! j \<noteq> x)"
proof (induction xs)
  case Nil
  then show ?case by simp
next
  case (Cons y ys)
  show ?case
  proof (cases "y = x")
    case True
    then show ?thesis by auto
  next
    case False
    with Cons obtain i where i: "i < length ys" "index_of ys x = Inr i" "ys ! i = x"
      "\<forall>j < i. ys ! j \<noteq> x" by auto
    show ?thesis
    proof (intro exI [of _ "Suc i"] conjI allI impI)
      fix j assume "j < Suc i"
      with i(4) False show "(y # ys) ! j \<noteq> x" by (cases j) auto
    qed (use i False in auto)
  qed
qed

text \<open>
  Where the circular scan starts: just after the remembered lane when it is a
  registered lane, at the first registered lane otherwise.
\<close>

definition starts_after_memory :: "controller \<Rightarrow> nat \<Rightarrow> bool" where
  "starts_after_memory c start =
     (case last_emergency_lane c of
        None \<Rightarrow> start = 0
      | Some p \<Rightarrow>
          if p \<in> set (lane_ids c)
          then \<exists>i < length (lane_ids c).
                 lane_ids c ! i = p \<and> start = Suc i mod length (lane_ids c)
          else start = 0)"

lemma scan_start_total: "\<exists>start. scan_start c = Inr start \<and> starts_after_memory c start"
proof (cases "last_emergency_lane c")
  case None
  then show ?thesis by (simp add: scan_start_def starts_after_memory_def)
next
  case (Some p)
  show ?thesis
  proof (cases "p \<in> set (lane_ids c)")
    case True
    from index_of_member [OF True] obtain i where "i < length (lane_ids c)"
      "index_of (lane_ids c) p = Inr i" "lane_ids c ! i = p" by blast
    with Some True show ?thesis
      by (auto simp: scan_start_def starts_after_memory_def)
  next
    case False
    with Some show ?thesis by (simp add: scan_start_def starts_after_memory_def)
  qed
qed

lemma find_member:
  assumes "x \<in> set xs" and "P x"
  shows "\<exists>y. find P xs = Some y \<and> P y \<and> y \<in> set xs"
proof (cases "find P xs")
  case None
  with assms show ?thesis by (auto simp: find_None_iff)
next
  case (Some y)
  then show ?thesis by (auto simp: find_Some_iff)
qed

lemma choose_emergency_lane_some:
  assumes "(l, d) \<in> set data" and "0 < emergency d"
    and "fst ` set data \<subseteq> set (lane_ids c)"
  shows "\<exists>ch start.
           choose_emergency_lane c data = Inr (c\<lparr>last_emergency_lane := Some ch\<rparr>, Some ch)
           \<and> starts_after_memory c start
           \<and> find (\<lambda>lane. lane \<in> set (tied_at_max data)) (rotate start (lane_ids c)) = Some ch
           \<and> ch \<in> set (tied_at_max data)"
proof -
  let ?ems = "filter (\<lambda>(l, d). 0 < emergency d) data"
  from assms(1,2) have ems: "?ems \<noteq> []"
    by (auto simp: filter_empty_conv)
  then have "map (\<lambda>(l, d). emergency d) ?ems \<noteq> []" by simp
  from py_max_Max [OF this] emergencies_max [OF assms(1,2)]
  have mx: "py_max (map (\<lambda>(l, d). emergency d) ?ems) = Inr (max_emergency data)"
    and pos: "0 < max_emergency data" by simp_all
  have tied: "map fst (filter (\<lambda>(l, d). emergency d = max_emergency data) ?ems)
      = tied_at_max data"
    using tied_filter [OF pos, of data] by (simp add: tied_at_max_def)
  from assms(1) have ne: "tied_at_max data \<noteq> []"
    by (intro tied_at_max_nonempty) auto
  then obtain t ts where tts: "tied_at_max data = t # ts" by (cases "tied_at_max data") auto
  from scan_start_total obtain start where start: "scan_start c = Inr start"
    "starts_after_memory c start" by blast
  have "t \<in> set (rotate start (lane_ids c))"
    using tied_at_max_keys [of data] assms(3) tts by auto
  from find_member [of t _ "\<lambda>lane. lane \<in> set (tied_at_max data)", OF this]
  obtain ch where ch: "find (\<lambda>lane. lane \<in> set (tied_at_max data))
      (rotate start (lane_ids c)) = Some ch" "ch \<in> set (tied_at_max data)"
    using tts by auto
  have pick: "(if length (tied_at_max data) = 1 then item0 (tied_at_max data)
               else round_robin c (tied_at_max data)) = Inr ch"
  proof (cases "length (tied_at_max data) = 1")
    case True
    with tts have "tied_at_max data = [t]" by simp
    with ch(2) True show ?thesis by simp
  next
    case False
    with start ch(1) show ?thesis
      by (simp add: round_robin_def scan_order_rotate)
  qed
  have "choose_emergency_lane c data = Inr (c\<lparr>last_emergency_lane := Some ch\<rparr>, Some ch)"
    unfolding choose_emergency_lane_def Let_def
    by (simp only: ems if_False mx sum.case tied pick)
  with start(2) ch show ?thesis by blast
qed

section \<open>One decision cycle, step by step\<close>

lemma update_Inr:
  assumes "update c rd t1 t2 rnd = Inr (c', out)"
  obtains data c1 g ls2 d gt c3 data' ls4 where
    "merge_readings (lanes c) rd [] = Inr data"
    and "select_lane c data t1 = Inr (c1, g)"
    and "update_waits (lanes c1) (lane_ids c1) g = Inr ls2"
    and "map_of data g = Some d"
    and "calculate_green_time c1 d = Inr gt"
    and "apply_yellow (c1\<lparr>lanes := ls2, current_green_time := gt\<rparr>) g t2 = Inr c3"
    and "simulate_flow c3 data g gt rnd = Inr data'"
    and "store_queues (lanes c3) (lane_ids c3) data' = Inr ls4"
    and "c' = c3\<lparr>lanes := ls4\<rparr>"
    and "build_output c' = Inr out"
  using assms unfolding update_def
  by (auto simp: dict_get_Inr split: sum.splits prod.splits)

text \<open>
  What a returned cycle leaves behind: the chosen lane \<open>g\<close> is registered and is the
  new green lane, the phases of the registered lanes are green for \<open>g\<close> and red for
  the others, in the lane table and in the report alike, and the report has exactly the
  registered lanes.
\<close>

lemma update_cycle:
  assumes "update c rd t1 t2 rnd = Inr (c', out)"
  obtains g where "current_green c' = Some g" and "g \<in> set (lane_ids c)"
    and "lane_ids c' = lane_ids c"
    and "green_started_at c' = Some t2"
    and "\<And>l. l \<in> set (lane_ids c) \<Longrightarrow>
           map_option state (map_of (lanes c') l) = Some (if l = g then GREEN else RED)"
    and "\<And>l. l \<in> set (lane_ids c) \<Longrightarrow>
           map_option report_state (map_of out l) = Some (if l = g then GREEN else RED)"
    and "\<And>l. l \<in> set (lane_ids c) \<Longrightarrow>
           map_option report_wait (map_of out l) = map_option wait (map_of (lanes c') l)"
    and "\<And>l. l \<in> set (lane_ids c) \<Longrightarrow>
           map_option green_time (map_of out l) =
             Some (if l = g then Some (current_green_time c') else None)"
    and "distinct (map fst out)" and "fst ` set out = set (lane_ids c)"
    and "\<And>l. distinct (lane_ids c) \<Longrightarrow> l \<in> set (lane_ids c) \<Longrightarrow>
           map_option wait (map_of (lanes c') l) =
             map_option (\<lambda>s. if l = g then 0 else wait s + 1) (map_of (lanes c) l)"
    and "\<And>l. l \<notin> set (lane_ids c) \<Longrightarrow>
           map_option wait (map_of (lanes c') l) = map_option wait (map_of (lanes c) l)"
    and "\<And>l. l \<in> set (lane_ids c) \<Longrightarrow> map_of (lanes c) l \<noteq> None"
proof -
  from assms obtain data c1 g ls2 d gt c3 data' ls4 where
    merge: "merge_readings (lanes c) rd [] = Inr data"
    and sel: "select_lane c data t1 = Inr (c1, g)"
    and waits: "update_waits (lanes c1) (lane_ids c1) g = Inr ls2"
    and d: "map_of data g = Some d"
    and gt: "calculate_green_time c1 d = Inr gt"
    and yellow: "apply_yellow (c1\<lparr>lanes := ls2, current_green_time := gt\<rparr>) g t2 = Inr c3"
    and flow: "simulate_flow c3 data g gt rnd = Inr data'"
    and store: "store_queues (lanes c3) (lane_ids c3) data' = Inr ls4"
    and c': "c' = c3\<lparr>lanes := ls4\<rparr>"
    and out: "build_output c' = Inr out"
    by (rule update_Inr)
  note c1 = frame_fields [OF select_lane_frame [OF sel]]
  note c3 = apply_yellow_fields [OF yellow]
  have ids3: "lane_ids c3 = lane_ids c" using c3(3) c1(1) by simp
  have ids': "lane_ids c' = lane_ids c" using c' ids3 by simp
  have green: "current_green c' = Some g" using c' c3(1) by simp
  from out obtain g' where g': "current_green c' = Some g'" "g' \<in> set (lane_ids c')"
    and look: "\<And>l. map_of out l =
           (if l \<in> set (lane_ids c')
            then map_option
                   (\<lambda>s. (report_of s)\<lparr>green_time :=
                            (if l = g' then Some (current_green_time c') else None)\<rparr>)
                   (map_of (lanes c') l)
            else None)"
    and dist: "distinct (map fst out)" and keys: "fst ` set out = set (lane_ids c')"
    by (rule build_output_Inr) blast
  from g' green have gg: "g' = g" by simp
  have gin: "g \<in> set (lane_ids c)" using g'(2) gg ids' by simp
  have st: "map_option state (map_of (lanes c') l) = Some (if l = g then GREEN else RED)"
    if "l \<in> set (lane_ids c)" for l
  proof -
    have "map_option state (map_of (lanes c') l) = map_option state (map_of (lanes c3) l)"
      using store_queues_state [OF store, of l] c' by simp
    also have "\<dots> = Some (if l = g then GREEN else RED)"
      using apply_yellow_state [OF yellow, of l] that c1(1) by simp
    finally show ?thesis .
  qed
  have wt: "map_option wait (map_of (lanes c') l) = map_option wait (map_of ls2 l)" for l
  proof -
    have "map_option wait (map_of (lanes c') l) = map_option wait (map_of (lanes c3) l)"
      using store_queues_wait [OF store, of l] c' by simp
    also have "\<dots> = map_option wait (map_of ls2 l)"
      using apply_yellow_wait [OF yellow, of l] by simp
    finally show ?thesis .
  qed
  have present': "map_of (lanes c') l \<noteq> None" if "l \<in> set (lane_ids c)" for l
    using st [OF that] by auto
  show ?thesis
  proof (rule that [of g])
    show "current_green c' = Some g" by (rule green)
    show "g \<in> set (lane_ids c)" by (rule gin)
    show "lane_ids c' = lane_ids c" by (rule ids')
    show "green_started_at c' = Some t2" using c' c3(2) by simp
    show "map_option state (map_of (lanes c') l) = Some (if l = g then GREEN else RED)"
      if "l \<in> set (lane_ids c)" for l
      using st [OF that] .
    show "map_option report_state (map_of out l) = Some (if l = g then GREEN else RED)"
      if "l \<in> set (lane_ids c)" for l
      using st [OF that] look [of l] that ids' present' [OF that]
      by (auto simp: report_of_def)
    show "map_option report_wait (map_of out l) = map_option wait (map_of (lanes c') l)"
      if "l \<in> set (lane_ids c)" for l
      using look [of l] that ids' present' [OF that]
      by (auto simp: report_of_def)
    show "map_option green_time (map_of out l) =
             Some (if l = g then Some (current_green_time c') else None)"
      if "l \<in> set (lane_ids c)" for l
      using look [of l] that ids' present' [OF that] gg
      by (auto simp: report_of_def)
    show "distinct (map fst out)" by (rule dist)
    show "fst ` set out = set (lane_ids c)" using keys ids' by simp
    show "map_option wait (map_of (lanes c') l) =
             map_option (\<lambda>s. if l = g then 0 else wait s + 1) (map_of (lanes c) l)"
      if "distinct (lane_ids c)" "l \<in> set (lane_ids c)" for l
      using update_waits_wait [OF waits, of l] that wt [of l] c1(1,2) by simp
    show "map_option wait (map_of (lanes c') l) = map_option wait (map_of (lanes c) l)"
      if "l \<notin> set (lane_ids c)" for l
      using update_waits_frame [OF waits, of l] that wt [of l] c1(1,2) by simp
    show "map_of (lanes c) l \<noteq> None" if "l \<in> set (lane_ids c)" for l
      using update_waits_present [OF waits, of l] that c1(1,2) by simp
  qed
qed

lemma select_lane_no_emergency:
  assumes "\<forall>(l, d) \<in> set data. \<not> 0 < emergency d"
  shows "select_lane c data now =
           (case fallback_lane c data now of Inl e \<Rightarrow> Inl e | Inr l \<Rightarrow> Inr (c, l))"
  using choose_emergency_lane_none [OF assms, of c] by (simp add: select_lane_def)

lemma update_chosen:
  assumes "update c rd t1 t2 rnd = Inr (c', out)"
  obtains data c1 g d where "merge_readings (lanes c) rd [] = Inr data"
    and "select_lane c data t1 = Inr (c1, g)"
    and "current_green c' = Some g"
    and "last_emergency_lane c' = last_emergency_lane c1"
    and "map_of data g = Some d"
    and "calculate_green_time c d = Inr (current_green_time c')"
proof -
  from assms obtain data c1 g ls2 d gt c3 data' ls4 where
    merge: "merge_readings (lanes c) rd [] = Inr data"
    and sel: "select_lane c data t1 = Inr (c1, g)"
    and d: "map_of data g = Some d"
    and gt: "calculate_green_time c1 d = Inr gt"
    and yellow: "apply_yellow (c1\<lparr>lanes := ls2, current_green_time := gt\<rparr>) g t2 = Inr c3"
    and c': "c' = c3\<lparr>lanes := ls4\<rparr>"
    by (rule update_Inr)
  note c1 = frame_fields [OF select_lane_frame [OF sel]]
  note c3 = apply_yellow_fields [OF yellow]
  have "calculate_green_time c d = calculate_green_time c1 d"
    unfolding calculate_green_time_def c1(6,7,8) ..
  with gt c' c3(4) have "calculate_green_time c d = Inr (current_green_time c')" by simp
  moreover have "current_green c' = Some g" using c' c3(1) by simp
  moreover have "last_emergency_lane c' = last_emergency_lane c1" using c' c3(5) by simp
  ultimately show ?thesis using that merge sel d by blast
qed

section \<open>The constructor\<close>

lemma init_controller_fields:
  "lane_ids (init_controller N y mn mx b sl r dbg) =
     map (\<lambda>i. ''Lane_'' @ str_nat (i + 1)) [0..<nat N]"
  "lanes (init_controller N y mn mx b sl r dbg) =
     fold (\<lambda>lane d. dict_set d lane fresh_lane)
       (map (\<lambda>i. ''Lane_'' @ str_nat (i + 1)) [0..<nat N]) []"
  "current_green (init_controller N y mn mx b sl r dbg) = None"
  "green_started_at (init_controller N y mn mx b sl r dbg) = None"
  "current_green_time (init_controller N y mn mx b sl r dbg) = mn"
  "last_emergency_lane (init_controller N y mn mx b sl r dbg) = None"
  "yellow_time (init_controller N y mn mx b sl r dbg) = y"
  "min_green (init_controller N y mn mx b sl r dbg) = mn"
  "max_green (init_controller N y mn mx b sl r dbg) = mx"
  "wait_boost (init_controller N y mn mx b sl r dbg) = b"
  "starvation_limit (init_controller N y mn mx b sl r dbg) = sl"
  "clearance_rate (init_controller N y mn mx b sl r dbg) = r"
  "debug (init_controller N y mn mx b sl r dbg) = dbg"
  by (simp_all add: init_controller_def Let_def)

section \<open>Worked cycles\<close>

subsection \<open>The float constants of the source\<close>

lemma float_2_0_eq: "float_2_0 = Finite 2"
  by (simp add: float_2_0_def round_double_integral)

lemma float_3_0_eq: "float_3_0 = Finite 3"
  by (simp add: float_3_0_def round_double_integral)

lemma float_12_0_eq: "float_12_0 = Finite 12"
  by (simp add: float_12_0_def round_double_integral)

lemma float_15_0_eq: "float_15_0 = Finite 15"
  by (simp add: float_15_0_def round_double_integral)

lemma float_2_5_eq: "float_2_5 = Finite (5 / 2)"
  unfolding float_2_5_def by (rule round_double_exact [of 1]) (simp_all add: pow2_def)

lemma float_0_4_eq: "float_0_4 = Finite (3602879701896397 / 9007199254740992)"
  unfolding float_0_4_def
  by (subst round_double_at [of "- 2"]) (simp_all add: pow2_def round_even_def Let_def)

text \<open>Sums and products that the worked cycles meet, rounded to doubles.\<close>

lemma round_0_4: "round_double (3602879701896397 / 9007199254740992) = Finite (3602879701896397 / 9007199254740992)"
  by (rule round_double_exact [of "- 2"]) (simp_all add: pow2_def)

lemma round_1_4: "round_double (12610078956637389 / 9007199254740992) = Finite (3152519739159347 / 2251799813685248)"
  by (subst round_double_at [of 0]) (simp_all add: pow2_def round_even_def Let_def)

lemma round_28: "round_double (15762598695796735 / 562949953421312) = Finite 28"
  by (subst round_double_at [of 4]) (simp_all add: pow2_def round_even_def Let_def)

lemmas float_consts = float_0_4_eq float_2_0_eq float_2_5_eq float_3_0_eq float_12_0_eq
  float_15_0_eq

subsection \<open>Two cycles on two lanes\<close>

text \<open>
  A controller for two lanes with the constructor's defaults, and two cycles on it. The
  first call finds no green lane and lets the fairness selector choose; the second
  call comes one second after the first green started and keeps the green lane, with a
  longer green time for a longer queue, although the other lane has the larger score.
\<close>

definition reading_of :: "string \<Rightarrow> int \<Rightarrow> int \<Rightarrow> reading" where
  "reading_of l n e = \<lparr>normal = n, emergency = e, lane_id = l\<rparr>"

definition two_lanes :: controller where
  "two_lanes = default_controller 2"

definition two_lanes_after1 :: controller where
  "two_lanes_after1 =
     \<lparr>lane_ids = [''Lane_1'', ''Lane_2''],
      lanes = [(''Lane_1'', \<lparr>normal = 7, emergency = 0, wait = 1, state = [1, 0, 0]\<rparr>),
               (''Lane_2'', \<lparr>normal = 0, emergency = 0, wait = 0, state = [0, 0, 1]\<rparr>)],
      current_green = Some ''Lane_2'', green_started_at = Some (Finite 101),
      current_green_time = Finite 3, last_emergency_lane = None, yellow_time = Finite 2,
      min_green = Finite 3, max_green = Finite 15,
      wait_boost = Finite (3602879701896397 / 9007199254740992), starvation_limit = 8,
      clearance_rate = Finite 3, debug = True\<rparr>"

definition report1 :: "(string, lane_report) dict" where
  "report1 =
     [(''Lane_1'', \<lparr>report_state = [1, 0, 0], report_wait = 1, green_time = None\<rparr>),
      (''Lane_2'', \<lparr>report_state = [0, 0, 1], report_wait = 0,
                    green_time = Some (Finite 3)\<rparr>)]"

definition two_lanes_after2 :: controller where
  "two_lanes_after2 =
     \<lparr>lane_ids = [''Lane_1'', ''Lane_2''],
      lanes = [(''Lane_1'', \<lparr>normal = 21, emergency = 0, wait = 2, state = [1, 0, 0]\<rparr>),
               (''Lane_2'', \<lparr>normal = 0, emergency = 0, wait = 0, state = [0, 0, 1]\<rparr>)],
      current_green = Some ''Lane_2'', green_started_at = Some (Finite 103),
      current_green_time = Finite 4, last_emergency_lane = None, yellow_time = Finite 2,
      min_green = Finite 3, max_green = Finite 15,
      wait_boost = Finite (3602879701896397 / 9007199254740992), starvation_limit = 8,
      clearance_rate = Finite 3, debug = True\<rparr>"

definition report2 :: "(string, lane_report) dict" where
  "report2 =
     [(''Lane_1'', \<lparr>report_state = [1, 0, 0], report_wait = 2, green_time = None\<rparr>),
      (''Lane_2'', \<lparr>report_state = [0, 0, 1], report_wait = 0,
                    green_time = Some (Finite 4)\<rparr>)]"

lemmas cycle_defs = update_def select_lane_def choose_emergency_lane_def fallback_lane_def
  choose_normal_lane_def max_key_def py_max_def round_robin_def scan_start_def scan_order_def
  calculate_green_time_def apply_yellow_def simulate_flow_def build_output_def dict_get_def
  lane_score_def Let_def RED_def YELLOW_def GREEN_def fresh_lane_def reading_of_def
  float_of_int_small round_double_integral fsub_def fmax_def fmin_def float_consts

lemma two_lanes_eq:
  "two_lanes =
     \<lparr>lane_ids = [''Lane_1'', ''Lane_2''],
      lanes = [(''Lane_1'', fresh_lane), (''Lane_2'', fresh_lane)],
      current_green = None, green_started_at = None, current_green_time = Finite 3,
      last_emergency_lane = None, yellow_time = Finite 2, min_green = Finite 3,
      max_green = Finite 15, wait_boost = Finite (3602879701896397 / 9007199254740992),
      starvation_limit = 8, clearance_rate = Finite 3, debug = True\<rparr>"
  by (simp add: two_lanes_def default_controller_def init_controller_def str_nat.simps
        upt_rec Let_def float_consts)

lemma first_cycle:
  "update two_lanes [reading_of ''Lane_1'' 6 0, reading_of ''Lane_2'' 9 0]
     (Finite 100) (Finite 101) (\<lambda>k. 1) = Inr (two_lanes_after1, report1)"
  unfolding two_lanes_eq two_lanes_after1_def report1_def by (simp add: cycle_defs)

lemma second_cycle:
  "update two_lanes_after1 [reading_of ''Lane_1'' 20 0, reading_of ''Lane_2'' 12 0]
     (Finite 102) (Finite 103) (\<lambda>k. 1) = Inr (two_lanes_after2, report2)"
  unfolding two_lanes_after1_def two_lanes_after2_def report2_def by (simp add: cycle_defs)

lemma second_cycle_fairness:
  "choose_normal_lane two_lanes_after1
     [(''Lane_1'', \<lparr>normal = 20, emergency = 0, wait = 1\<rparr>),
      (''Lane_2'', \<lparr>normal = 12, emergency = 0, wait = 0\<rparr>)] = Inr ''Lane_1''"
  unfolding two_lanes_after1_def
  by (simp add: cycle_defs round_0_4 round_1_4 round_28)

section \<open>Phases after a cycle\<close>

text \<open>
  C1. Whenever \<open>update\<close> returns, some registered lane \<open>g\<close> is the new green lane:
  in the report and in the stored lane table \<open>g\<close> is green and every other registered
  lane is red, so exactly one registered lane is green in each; the report lists the
  registered lanes only, and no entry of it is yellow.
\<close>

theorem update_exactly_one_green:
  assumes "update c rd t1 t2 rnd = Inr (c', out)"
  shows "(\<exists>g. g \<in> set (lane_ids c') \<and> current_green c' = Some g
            \<and> (\<forall>l \<in> set (lane_ids c').
                  map_option report_state (map_of out l) = Some (if l = g then GREEN else RED)
                  \<and> map_option state (map_of (lanes c') l)
                      = Some (if l = g then GREEN else RED)))
         \<and> (\<exists>!g. g \<in> set (lane_ids c')
                  \<and> map_option report_state (map_of out g) = Some GREEN)
         \<and> (\<exists>!g. g \<in> set (lane_ids c')
                  \<and> map_option state (map_of (lanes c') g) = Some GREEN)
         \<and> (\<forall>l r. (l, r) \<in> set out \<longrightarrow>
                  l \<in> set (lane_ids c') \<and> report_state r \<noteq> YELLOW)
         \<and> lane_ids c' = lane_ids c"
proof -
  from assms obtain g where g: "current_green c' = Some g" "g \<in> set (lane_ids c)"
    and ids: "lane_ids c' = lane_ids c"
    and st: "\<And>l. l \<in> set (lane_ids c) \<Longrightarrow>
           map_option state (map_of (lanes c') l) = Some (if l = g then GREEN else RED)"
    and rst: "\<And>l. l \<in> set (lane_ids c) \<Longrightarrow>
           map_option report_state (map_of out l) = Some (if l = g then GREEN else RED)"
    and dist: "distinct (map fst out)" and keys: "fst ` set out = set (lane_ids c)"
    by (rule update_cycle) blast
  have colours: "GREEN \<noteq> RED" "GREEN \<noteq> YELLOW" "RED \<noteq> YELLOW"
    by (simp_all add: GREEN_def RED_def YELLOW_def)
  have one: "\<exists>g. g \<in> set (lane_ids c') \<and> current_green c' = Some g
            \<and> (\<forall>l \<in> set (lane_ids c').
                  map_option report_state (map_of out l) = Some (if l = g then GREEN else RED)
                  \<and> map_option state (map_of (lanes c') l)
                      = Some (if l = g then GREEN else RED))"
    using g ids st rst by auto
  have rep: "\<exists>!g. g \<in> set (lane_ids c')
                  \<and> map_option report_state (map_of out g) = Some GREEN"
  proof (rule ex1I [of _ g])
    show "g \<in> set (lane_ids c') \<and> map_option report_state (map_of out g) = Some GREEN"
      using g ids rst [of g] by simp
  next
    fix l
    assume "l \<in> set (lane_ids c') \<and> map_option report_state (map_of out l) = Some GREEN"
    with rst [of l] ids colours show "l = g"
      by (auto split: if_splits)
  qed
  have stored: "\<exists>!g. g \<in> set (lane_ids c')
                  \<and> map_option state (map_of (lanes c') g) = Some GREEN"
  proof (rule ex1I [of _ g])
    show "g \<in> set (lane_ids c') \<and> map_option state (map_of (lanes c') g) = Some GREEN"
      using g ids st [of g] by simp
  next
    fix l
    assume "l \<in> set (lane_ids c') \<and> map_option state (map_of (lanes c') l) = Some GREEN"
    with st [of l] ids colours show "l = g"
      by (auto split: if_splits)
  qed
  have no_yellow: "l \<in> set (lane_ids c') \<and> report_state r \<noteq> YELLOW"
    if "(l, r) \<in> set out" for l r
  proof -
    from that have l: "l \<in> set (lane_ids c)"
      using keys by force
    from that dist have "map_of out l = Some r" by simp
    with rst [OF l] colours l ids show ?thesis
      by (auto split: if_splits)
  qed
  from one rep stored no_yellow ids show ?thesis by blast
qed

theorem update_exactly_one_green_witness:
  "update two_lanes [reading_of ''Lane_1'' 6 0, reading_of ''Lane_2'' 9 0]
     (Finite 100) (Finite 101) (\<lambda>k. 1) = Inr (two_lanes_after1, report1)
   \<and> current_green two_lanes_after1 = Some ''Lane_2''
   \<and> (\<exists>!g. g \<in> set (lane_ids two_lanes_after1)
            \<and> map_option report_state (map_of report1 g) = Some GREEN)
   \<and> (\<exists>!g. g \<in> set (lane_ids two_lanes_after1)
            \<and> map_option state (map_of (lanes two_lanes_after1) g) = Some GREEN)"
proof -
  note cycle = update_exactly_one_green [OF first_cycle]
  from cycle have report: "\<exists>!g. g \<in> set (lane_ids two_lanes_after1)
            \<and> map_option report_state (map_of report1 g) = Some GREEN"
    by blast
  from cycle have stored: "\<exists>!g. g \<in> set (lane_ids two_lanes_after1)
            \<and> map_option state (map_of (lanes two_lanes_after1) g) = Some GREEN"
    by blast
  have "current_green two_lanes_after1 = Some ''Lane_2''"
    by (simp add: two_lanes_after1_def)
  with first_cycle report stored show ?thesis by blast
qed

section \<open>Wait counters after a cycle\<close>

text \<open>
  C2. With pairwise distinct registered lane ids, whenever \<open>update\<close> returns, the wait
  counter of the chosen lane is 0, the wait counter of every other registered lane is
  its old value plus 1, the wait counter of any other entry of the lane table is
  unchanged, and the report carries the new counters.
\<close>

theorem update_wait_counters:
  assumes "update c rd t1 t2 rnd = Inr (c', out)" and "distinct (lane_ids c)"
  shows "\<exists>g. g \<in> set (lane_ids c) \<and> current_green c' = Some g
           \<and> (\<forall>l. map_option wait (map_of (lanes c') l) =
                  (if l \<in> set (lane_ids c)
                   then map_option (\<lambda>s. if l = g then 0 else wait s + 1) (map_of (lanes c) l)
                   else map_option wait (map_of (lanes c) l)))
           \<and> (\<forall>l \<in> set (lane_ids c).
                  map_of (lanes c) l \<noteq> None
                  \<and> map_option report_wait (map_of out l)
                      = map_option wait (map_of (lanes c') l))"
proof -
  from assms(1) obtain g where g: "current_green c' = Some g" "g \<in> set (lane_ids c)"
    and rw: "\<And>l. l \<in> set (lane_ids c) \<Longrightarrow>
           map_option report_wait (map_of out l) = map_option wait (map_of (lanes c') l)"
    and w: "\<And>l. distinct (lane_ids c) \<Longrightarrow> l \<in> set (lane_ids c) \<Longrightarrow>
           map_option wait (map_of (lanes c') l) =
             map_option (\<lambda>s. if l = g then 0 else wait s + 1) (map_of (lanes c) l)"
    and frame: "\<And>l. l \<notin> set (lane_ids c) \<Longrightarrow>
           map_option wait (map_of (lanes c') l) = map_option wait (map_of (lanes c) l)"
    and present: "\<And>l. l \<in> set (lane_ids c) \<Longrightarrow> map_of (lanes c) l \<noteq> None"
    by (rule update_cycle) blast
  show ?thesis
  proof (intro exI [of _ g] conjI allI ballI)
    fix l
    show "map_option wait (map_of (lanes c') l) =
            (if l \<in> set (lane_ids c)
             then map_option (\<lambda>s. if l = g then 0 else wait s + 1) (map_of (lanes c) l)
             else map_option wait (map_of (lanes c) l))"
      using w [OF assms(2), of l] frame [of l] by simp
  qed (use g rw present in auto)
qed

theorem update_wait_counters_witness:
  "distinct (lane_ids two_lanes_after1)
   \<and> update two_lanes_after1 [reading_of ''Lane_1'' 20 0, reading_of ''Lane_2'' 12 0]
         (Finite 102) (Finite 103) (\<lambda>k. 1) = Inr (two_lanes_after2, report2)
   \<and> current_green two_lanes_after2 = Some ''Lane_2''
   \<and> map_option wait (map_of (lanes two_lanes_after1) ''Lane_1'') = Some 1
   \<and> map_option wait (map_of (lanes two_lanes_after2) ''Lane_1'') = Some 2
   \<and> map_option wait (map_of (lanes two_lanes_after2) ''Lane_2'') = Some 0"
proof -
  have d: "distinct (lane_ids two_lanes_after1)"
    by (simp add: two_lanes_after1_def)
  from update_wait_counters [OF second_cycle d] second_cycle d show ?thesis
    by (simp add: two_lanes_after1_def two_lanes_after2_def)
qed

section \<open>The green clock restarts on every cycle\<close>

lemma merge_readings_lookup:
  "merge_readings ls rd acc = Inr data \<Longrightarrow>
     map_of data l =
       (case filter (\<lambda>r. lane_id r = l) rd of
          [] \<Rightarrow> map_of acc l
        | r # rs \<Rightarrow>
            map_option
              (\<lambda>s. \<lparr>normal = normal (last (r # rs)), emergency = emergency (last (r # rs)),
                     wait = wait s\<rparr>)
              (map_of ls l))"
proof (induction rd arbitrary: acc)
  case Nil
  then show ?case by simp
next
  case (Cons r rest)
  from Cons.prems obtain s where s: "map_of ls (lane_id r) = Some s"
    and rest: "merge_readings ls rest
        (dict_set acc (lane_id r) \<lparr>normal = normal r, emergency = emergency r, wait = wait s\<rparr>)
        = Inr data"
    by (auto simp: dict_get_Inr split: sum.splits)
  from Cons.IH [OF rest] s show ?case
    by (auto simp: map_of_dict_set split: list.splits)
qed

lemma calculate_green_time_Inr:
  "calculate_green_time c d = Inr v \<longleftrightarrow>
     (\<exists>fn clear fw fe.
        float_of_int (normal d) = Inr fn \<and> fdiv fn (clearance_rate c) = Inr clear
        \<and> float_of_int (wait d) = Inr fw \<and> float_of_int (emergency d) = Inr fe
        \<and> v = fmax (min_green c)
                 (fmin (fadd (fadd clear (fmul fw float_0_4)) (fmul fe float_2_0))
                    (max_green c)))"
  by (auto simp: calculate_green_time_def Let_def split: sum.splits)

text \<open>
  C8. Whenever \<open>update\<close> returns, whichever way the lane was chosen: the green-phase
  start is the clock value \<open>t2\<close> read by the phase transition of this call; the
  allotted green time is \<open>max(minGreen, min(n / clearanceRate + w * 0.4 + e * 2.0,
  maxGreen))\<close> in double arithmetic, where \<open>n\<close> and \<open>e\<close> are the counts of this call's
  (last) reading for the chosen lane and \<open>w\<close> is the lane's stored wait counter before
  the call; and the elapsed-time test of the next call, reading the clock at \<open>now\<close>,
  compares \<open>now - t2\<close> with that duration.
\<close>

theorem update_restarts_green_clock:
  assumes "update c rd t1 t2 rnd = Inr (c', out)"
  shows "green_started_at c' = Some t2
         \<and> (\<exists>g r s fn clear fw fe.
                current_green c' = Some g
                \<and> filter (\<lambda>r. lane_id r = g) rd \<noteq> []
                \<and> r = last (filter (\<lambda>r. lane_id r = g) rd)
                \<and> map_of (lanes c) g = Some s
                \<and> float_of_int (normal r) = Inr fn
                \<and> fdiv fn (clearance_rate c) = Inr clear
                \<and> float_of_int (wait s) = Inr fw
                \<and> float_of_int (emergency r) = Inr fe
                \<and> current_green_time c' =
                    fmax (min_green c)
                      (fmin (fadd (fadd clear (fmul fw float_0_4)) (fmul fe float_2_0))
                         (max_green c)))
         \<and> (\<forall>g data' now. current_green c' = Some g \<longrightarrow>
                fallback_lane c' data' now =
                  (if g \<noteq> [] \<and> t2 \<noteq> Finite 0 \<and> flt (fsub now t2) (current_green_time c')
                   then Inr g
                   else choose_normal_lane c' data'))"
proof -
  from assms obtain g where start: "green_started_at c' = Some t2"
    and green: "current_green c' = Some g"
    by (rule update_cycle) blast
  from assms obtain data c1 g' d where merge: "merge_readings (lanes c) rd [] = Inr data"
    and g': "current_green c' = Some g'"
    and d: "map_of data g' = Some d"
    and est: "calculate_green_time c d = Inr (current_green_time c')"
    by (rule update_chosen) blast
  from green g' have gg: "g' = g" by simp
  let ?rs = "filter (\<lambda>r. lane_id r = g) rd"
  from merge_readings_lookup [OF merge, of g] d gg
  have ne: "?rs \<noteq> []" by (auto split: list.splits)
  with merge_readings_lookup [OF merge, of g] d gg
  obtain s where s: "map_of (lanes c) g = Some s"
    and d_eq: "d = \<lparr>normal = normal (last ?rs), emergency = emergency (last ?rs),
                      wait = wait s\<rparr>"
    by (auto split: list.splits)
  from est obtain fn clear fw fe where
    "float_of_int (normal d) = Inr fn" "fdiv fn (clearance_rate c) = Inr clear"
    "float_of_int (wait d) = Inr fw" "float_of_int (emergency d) = Inr fe"
    "current_green_time c' =
       fmax (min_green c)
         (fmin (fadd (fadd clear (fmul fw float_0_4)) (fmul fe float_2_0)) (max_green c))"
    unfolding calculate_green_time_Inr by blast
  with d_eq have formula: "\<exists>g r s fn clear fw fe.
                current_green c' = Some g
                \<and> filter (\<lambda>r. lane_id r = g) rd \<noteq> []
                \<and> r = last (filter (\<lambda>r. lane_id r = g) rd)
                \<and> map_of (lanes c) g = Some s
                \<and> float_of_int (normal r) = Inr fn
                \<and> fdiv fn (clearance_rate c) = Inr clear
                \<and> float_of_int (wait s) = Inr fw
                \<and> float_of_int (emergency r) = Inr fe
                \<and> current_green_time c' =
                    fmax (min_green c)
                      (fmin (fadd (fadd clear (fmul fw float_0_4)) (fmul fe float_2_0))
                         (max_green c))"
    using green ne s by (intro exI [of _ g] exI [of _ "last ?rs"] exI [of _ s]) auto
  have next_call: "fallback_lane c' data' now =
      (if h \<noteq> [] \<and> t2 \<noteq> Finite 0 \<and> flt (fsub now t2) (current_green_time c') then Inr h
       else choose_normal_lane c' data')" if "current_green c' = Some h" for h data' now
    using that start by (simp add: fallback_lane_def Let_def)
  from start formula next_call show ?thesis by blast
qed

theorem update_restarts_green_clock_witness:
  "update two_lanes_after1 [reading_of ''Lane_1'' 20 0, reading_of ''Lane_2'' 12 0]
     (Finite 102) (Finite 103) (\<lambda>k. 1) = Inr (two_lanes_after2, report2)
   \<and> choose_normal_lane two_lanes_after1
         [(''Lane_1'', \<lparr>normal = 20, emergency = 0, wait = 1\<rparr>),
          (''Lane_2'', \<lparr>normal = 12, emergency = 0, wait = 0\<rparr>)] = Inr ''Lane_1''
   \<and> current_green two_lanes_after1 = Some ''Lane_2''
   \<and> green_started_at two_lanes_after1 = Some (Finite 101)
   \<and> current_green_time two_lanes_after1 = Finite 3
   \<and> current_green two_lanes_after2 = Some ''Lane_2''
   \<and> green_started_at two_lanes_after2 = Some (Finite 103)
   \<and> current_green_time two_lanes_after2 = Finite 4
   \<and> fallback_lane two_lanes_after2 [] (Finite 106) = Inr ''Lane_2''"
proof -
  note cycle = update_restarts_green_clock [OF second_cycle]
  have green: "current_green two_lanes_after2 = Some ''Lane_2''"
    by (simp add: two_lanes_after2_def)
  from cycle green have "fallback_lane two_lanes_after2 [] (Finite 106) =
      (if ''Lane_2'' \<noteq> [] \<and> Finite 103 \<noteq> Finite 0
          \<and> flt (fsub (Finite 106) (Finite 103)) (current_green_time two_lanes_after2)
       then Inr ''Lane_2'' else choose_normal_lane two_lanes_after2 [])"
    by blast
  then have kept: "fallback_lane two_lanes_after2 [] (Finite 106) = Inr ''Lane_2''"
    by (simp add: two_lanes_after2_def fsub_def round_double_integral)
  from cycle have "green_started_at two_lanes_after2 = Some (Finite 103)" by blast
  with second_cycle second_cycle_fairness green kept show ?thesis
    by (simp add: two_lanes_after1_def two_lanes_after2_def)
qed


section \<open>The green-time estimator\<close>








section \<open>An empty lane set\<close>

text \<open>
  C9 as stated fails: the claim has \<open>update\<close> return an empty report for an empty
  lane set; on the controller the request handler builds for an empty list of lanes,
  the call raises \<^verbatim>\<open>ValueError\<close> instead.
\<close>

theorem empty_lane_set_counterexample:
  "update (api_controller []) [] (Finite 100) (Finite 101) (\<lambda>k. 0) = Inl ValueError"
  by (simp add: api_controller_def init_controller_def cycle_defs)

text \<open>
  C9, amended. With an empty lane set \<open>update\<close> never returns a report: the call
  raises, and on a controller with no green lane and no readings the exception is the
  \<^verbatim>\<open>ValueError\<close> of \<^verbatim>\<open>max\<close> over the empty score table.
\<close>

theorem empty_lane_set_raises:
  "(lane_ids c = [] \<longrightarrow> (\<exists>e. update c rd t1 t2 rnd = Inl e))
   \<and> (lane_ids c = [] \<and> current_green c = None \<longrightarrow> update c [] t1 t2 rnd = Inl ValueError)"
proof (intro conjI impI)
  assume empty: "lane_ids c = []"
  show "\<exists>e. update c rd t1 t2 rnd = Inl e"
  proof (cases "update c rd t1 t2 rnd")
    case (Inl e)
    then show ?thesis by blast
  next
    case (Inr r)
    then obtain c' out where "update c rd t1 t2 rnd = Inr (c', out)" by (cases r) auto
    then obtain g where "g \<in> set (lane_ids c)" by (rule update_cycle)
    with empty show ?thesis by simp
  qed
next
  assume "lane_ids c = [] \<and> current_green c = None"
  then show "update c [] t1 t2 rnd = Inl ValueError"
    by (simp add: update_def select_lane_def choose_emergency_lane_def fallback_lane_def
          choose_normal_lane_def max_key_def)
qed

theorem empty_lane_set_raises_witness:
  "lane_ids (default_controller 0) = []
   \<and> current_green (default_controller 0) = None
   \<and> (\<exists>e. update (default_controller 0) [reading_of ''Lane_1'' 1 0] (Finite 100) (Finite 101)
             (\<lambda>k. 0) = Inl e)
   \<and> update (default_controller 0) [] (Finite 100) (Finite 101) (\<lambda>k. 0) = Inl ValueError"
proof -
  have empty: "lane_ids (default_controller 0) = []"
    and none: "current_green (default_controller 0) = None"
    by (simp_all add: default_controller_def init_controller_fields)
  from empty_lane_set_raises
    [of "default_controller 0" "[reading_of ''Lane_1'' 1 0]" "Finite 100" "Finite 101" "\<lambda>k. 0"]
    empty none
  show ?thesis by simp
qed


end
